theory Spec2Isabelle
  imports Main
begin

section \<open>JavaScript values used by the runtime\<close>

text \<open>
  A JavaScript string is modelled as a \<open>string\<close>, one \<open>char\<close> per code unit; the
  code units covered are those below 256, where \<open>toLowerCase\<close>, the class \<open>\s\<close> and
  NFC normalisation are given in full. A value of type \<open>string | null\<close> is a
  \<open>string option\<close> with \<open>None\<close> for \<open>null\<close> (or \<open>undefined\<close>). The test \<open>!x\<close> on such
  a value holds for \<open>null\<close> and for the empty string. Numbers are modelled as
  unbounded integers: JavaScript agrees with them as long as every value stays below
  \<open>2^53\<close> in magnitude.
\<close>

definition falsy_str :: "string option \<Rightarrow> bool" where
  "falsy_str x = (case x of None \<Rightarrow> True | Some s \<Rightarrow> s = [])"

definition falsy_bool :: "bool option \<Rightarrow> bool" where
  "falsy_bool x = (case x of None \<Rightarrow> True | Some b \<Rightarrow> \<not> b)"

text \<open>
  The class \<open>\s\<close> (also what \<open>trim\<close> strips): tab, line feed, vertical tab, form
  feed, carriage return, space and no-break space. The class \<open>\d\<close> is \<open>0-9\<close>.
\<close>

definition js_space :: "char \<Rightarrow> bool" where
  "js_space c = (c \<in> set [CHR 0x09, CHR 0x0A, CHR 0x0B, CHR 0x0C, CHR 0x0D, CHR 0x20, CHR 0xA0])"

definition js_digit :: "char \<Rightarrow> bool" where
  "js_digit c = (48 \<le> (of_char c :: nat) \<and> (of_char c :: nat) \<le> 57)"

text \<open>\<open>String.prototype.toLowerCase\<close>: \<open>A-Z\<close> and the accented capitals
  \<open>0xC0-0xDE\<close> (without the multiplication sign \<open>0xD7\<close>) move up by 32.\<close>

definition toLowerChar :: "char \<Rightarrow> char" where
  "toLowerChar c =
     (let n = (of_char c :: nat)
      in if (65 \<le> n \<and> n \<le> 90) \<or> (192 \<le> n \<and> n \<le> 222 \<and> n \<noteq> 215)
         then char_of (n + 32) else c)"

definition toLowerCase :: "string \<Rightarrow> string" where
  "toLowerCase s = map toLowerChar s"

definition trimStart :: "string \<Rightarrow> string" where
  "trimStart s = dropWhile js_space s"

definition trimEnd :: "string \<Rightarrow> string" where
  "trimEnd s = rev (dropWhile js_space (rev s))"

definition trim :: "string \<Rightarrow> string" where
  "trim s = trimEnd (trimStart s)"

definition startsWith :: "string \<Rightarrow> string \<Rightarrow> bool" where
  "startsWith s p = (take (length p) s = p)"

definition endsWith :: "string \<Rightarrow> string \<Rightarrow> bool" where
  "endsWith s p = (length p \<le> length s \<and> drop (length s - length p) s = p)"

text \<open>
  \<open>parseInt(s, 10)\<close> on a string that starts with a digit: the value of its longest
  digit prefix. The scheduler only applies it to the groups \<open>(\d+)\<close>, \<open>(\d{1,2})\<close> and
  \<open>(\d{2})\<close> of a successful match.
\<close>

definition digit_value :: "char \<Rightarrow> int" where
  "digit_value c = int (of_char c) - 48"

definition parseInt10 :: "string \<Rightarrow> int" where
  "parseInt10 s = foldl (\<lambda>acc c. 10 * acc + digit_value c) 0 (takeWhile js_digit s)"

section \<open>Regular expressions of the schedule grammar\<close>

text \<open>
  The patterns of \<open>calculateNextRun\<close> use literals, \<open>\s\<close>, \<open>\d\<close>, sequence,
  alternation, \<open>?\<close>, \<open>*\<close>, \<open>+\<close> and capturing groups, all anchored by \<open>^\<close> and \<open>$\<close> and
  with the flag \<open>i\<close>. \<open>rx_match r s\<close> lists, in the priority order of a backtracking
  matcher (greedy quantifiers, left alternative first), every way \<open>r\<close> matches a prefix of
  \<open>s\<close>: the captured groups and the rest of the input. A \<open>*\<close> iteration that consumes
  nothing is not repeated.
\<close>

datatype rx = Lit string | Space | Digit | Seq rx rx | Alt rx rx | Opt rx | Star rx | Group rx

text \<open>Flag \<open>i\<close>: a pattern letter matches both of its ASCII cases.\<close>

definition ascii_fold :: "char \<Rightarrow> char" where
  "ascii_fold c = (let n = (of_char c :: nat) in if 65 \<le> n \<and> n \<le> 90 then char_of (n + 32) else c)"

definition ci_eq :: "char \<Rightarrow> char \<Rightarrow> bool" where
  "ci_eq a b = (ascii_fold a = ascii_fold b)"

function rx_match :: "rx \<Rightarrow> string \<Rightarrow> (string list \<times> string) list" where
  "rx_match (Lit w) s =
     (if length w \<le> length s \<and> list_all2 ci_eq w (take (length w) s)
      then [([], drop (length w) s)] else [])"
| "rx_match Space s = (case s of [] \<Rightarrow> [] | c # cs \<Rightarrow> if js_space c then [([], cs)] else [])"
| "rx_match Digit s = (case s of [] \<Rightarrow> [] | c # cs \<Rightarrow> if js_digit c then [([], cs)] else [])"
| "rx_match (Seq a b) s =
     concat (map (\<lambda>(g, r). map (\<lambda>(g', r'). (g @ g', r')) (rx_match b r)) (rx_match a s))"
| "rx_match (Alt a b) s = rx_match a s @ rx_match b s"
| "rx_match (Opt a) s = rx_match a s @ [([], s)]"
| "rx_match (Star a) s =
     concat (map (\<lambda>(g, r). if length r < length s
                             then map (\<lambda>(g', r'). (g @ g', r')) (rx_match (Star a) r) else [])
                 (rx_match a s)) @ [([], s)]"
| "rx_match (Group a) s =
     map (\<lambda>(g, r). (take (length s - length r) s # g, r)) (rx_match a s)"
  by pat_completeness auto
termination
  by (relation "measures [\<lambda>(r, s). size r, \<lambda>(r, s). length s]") auto

declare rx_match.simps [simp del]

definition Plus :: "rx \<Rightarrow> rx" where
  "Plus a = Seq a (Star a)"

text \<open>
  \<open>s.match(/^r$/i)\<close>: the first way to match that reaches the end of the input, as
  the array of the whole match followed by the groups; \<open>None\<close> for \<open>null\<close>.
\<close>

definition rx_exec :: "rx \<Rightarrow> string \<Rightarrow> string list option" where
  "rx_exec r s = (case find (\<lambda>(g, rest). rest = []) (rx_match r s) of
                    None \<Rightarrow> None | Some (g, rest) \<Rightarrow> Some (s # g))"

text \<open>\<^verbatim>\<open>(min(?:ute)?s?|hrs?|hours?|days?)\<close> and \<^verbatim>\<open>(min(?:ute)?s?|hrs?|hours?)\<close>, without
  the group.\<close>

definition unitsIn :: rx where
  "unitsIn = Alt (Seq (Lit ''min'') (Seq (Opt (Lit ''ute'')) (Opt (Lit ''s''))))
            (Alt (Seq (Lit ''hr'') (Opt (Lit ''s'')))
            (Alt (Seq (Lit ''hour'') (Opt (Lit ''s'')))
                 (Seq (Lit ''day'') (Opt (Lit ''s'')))))"

definition unitsEvery :: rx where
  "unitsEvery = Alt (Seq (Lit ''min'') (Seq (Opt (Lit ''ute'')) (Opt (Lit ''s''))))
               (Alt (Seq (Lit ''hr'') (Opt (Lit ''s'')))
                    (Seq (Lit ''hour'') (Opt (Lit ''s''))))"

text \<open>\<^verbatim>\<open>(\d{1,2}):(\d{2})\<close>\<close>

definition hhmm :: rx where
  "hhmm = Seq (Group (Seq Digit (Opt Digit))) (Seq (Lit '':'') (Group (Seq Digit Digit)))"

text \<open>\<^verbatim>\<open>/^in\s+(\d+)\s*(min(?:ute)?s?|hrs?|hours?|days?)$/i\<close>\<close>

definition inRx :: rx where
  "inRx = Seq (Lit ''in'') (Seq (Plus Space) (Seq (Group (Plus Digit)) (Seq (Star Space) (Group unitsIn))))"

text \<open>\<^verbatim>\<open>/^at\s+(\d{1,2}):(\d{2})$/i\<close>\<close>

definition atRx :: rx where
  "atRx = Seq (Lit ''at'') (Seq (Plus Space) hhmm)"

text \<open>\<^verbatim>\<open>/^tomorrow\s+at\s+(\d{1,2}):(\d{2})$/i\<close>\<close>

definition tomorrowRx :: rx where
  "tomorrowRx = Seq (Lit ''tomorrow'') (Seq (Plus Space) (Seq (Lit ''at'') (Seq (Plus Space) hhmm)))"

text \<open>\<^verbatim>\<open>/^(?:every\s+day|daily)\s+at\s+(\d{1,2}):(\d{2})$/i\<close>\<close>

definition dailyRx :: rx where
  "dailyRx = Seq (Alt (Seq (Lit ''every'') (Seq (Plus Space) (Lit ''day''))) (Lit ''daily''))
                 (Seq (Plus Space) (Seq (Lit ''at'') (Seq (Plus Space) hhmm)))"

text \<open>\<^verbatim>\<open>/^every\s+(\d+)\s*(min(?:ute)?s?|hrs?|hours?)$/i\<close>\<close>

definition everyRx :: rx where
  "everyRx = Seq (Lit ''every'') (Seq (Plus Space) (Seq (Group (Plus Digit)) (Seq (Star Space) (Group unitsEvery))))"

section \<open>Scheduler: next-run computation and task creation\<close>

text \<open>
  A \<open>Date\<close> is its time value, an integer number of milliseconds since the epoch
  (of magnitude at most \<open>8.64e15\<close> for a valid date). Local time follows the time zone
  of the host, which is a parameter: \<open>tz t isUTC\<close> is the offset \<open>LocalTZA(t, isUTC)\<close>
  of ECMAScript, in milliseconds east of UTC, at the instant \<open>t\<close> when \<open>isUTC\<close> holds and
  at the local time value \<open>t\<close> otherwise. The offset may change from one instant to
  another, as it does when daylight-saving time begins or ends. \<open>LocalTime\<close> and
  \<open>UTC\<close> are the conversions of the language specification.

  \<open>setHours(h, m, 0, 0)\<close> takes the local time of the date, keeps its day, sets the
  time within the day to \<open>h\<close> hours and \<open>m\<close> minutes (values beyond a day roll over) and
  converts back; \<open>setDate(getDate() + 1)\<close> takes the local time, moves it to the next
  day at the same time within the day and converts back. A zone whose offset never changes
  is \<open>fixedOffset\<close>.
\<close>

type_synonym zone = "int \<Rightarrow> bool \<Rightarrow> int"

definition MS_PER_DAY :: int where
  "MS_PER_DAY = 24 * 60 * 60 * 1000"

definition LocalTime :: "zone \<Rightarrow> int \<Rightarrow> int" where
  "LocalTime tz t = t + tz t True"

definition UTC :: "zone \<Rightarrow> int \<Rightarrow> int" where
  "UTC tz t = t - tz t False"

definition fixedOffset :: "int \<Rightarrow> zone" where
  "fixedOffset off = (\<lambda>t isUTC. off)"

definition setHours :: "zone \<Rightarrow> int \<Rightarrow> int \<Rightarrow> int \<Rightarrow> int" where
  "setHours tz t hours minutes =
     UTC tz ((LocalTime tz t div MS_PER_DAY) * MS_PER_DAY + hours * 3600000 + minutes * 60000)"

definition addOneDay :: "zone \<Rightarrow> int \<Rightarrow> int" where
  "addOneDay tz t = UTC tz (LocalTime tz t + MS_PER_DAY)"

text \<open>
  \<open>calculateNextRun\<close> (\<open>SchedulerTab\<close>) tries five patterns in turn. Each block is a
  function that yields \<open>Some t\<close> where the source executes \<open>return t\<close> and \<open>None\<close>
  where control falls through to the next block. \<open>now\<close> is \<open>new Date().getTime()\<close>.
\<close>

definition inBranch :: "int \<Rightarrow> string \<Rightarrow> int option" where
  "inBranch now schedule =
     (case rx_exec inRx schedule of
        None \<Rightarrow> None
      | Some inMatch \<Rightarrow>
          (let v = parseInt10 (inMatch ! 1);
               unit = toLowerCase (inMatch ! 2)
           in if startsWith unit ''min'' then Some (now + v * 60 * 1000)
              else if startsWith unit ''h'' then Some (now + v * 60 * 60 * 1000)
              else if startsWith unit ''d'' then Some (now + v * 24 * 60 * 60 * 1000)
              else None))"

definition atBranch :: "zone \<Rightarrow> int \<Rightarrow> string \<Rightarrow> int option" where
  "atBranch tz now schedule =
     (case rx_exec atRx schedule of
        None \<Rightarrow> None
      | Some atMatch \<Rightarrow>
          (let hours = parseInt10 (atMatch ! 1);
               minutes = parseInt10 (atMatch ! 2);
               target = setHours tz now hours minutes;
               target = (if target \<le> now then addOneDay tz target else target)
           in Some target))"

definition tomorrowBranch :: "zone \<Rightarrow> int \<Rightarrow> string \<Rightarrow> int option" where
  "tomorrowBranch tz now schedule =
     (case rx_exec tomorrowRx schedule of
        None \<Rightarrow> None
      | Some tomorrowMatch \<Rightarrow>
          (let hours = parseInt10 (tomorrowMatch ! 1);
               minutes = parseInt10 (tomorrowMatch ! 2);
               target = addOneDay tz now;
               target = setHours tz target hours minutes
           in Some target))"

definition dailyBranch :: "zone \<Rightarrow> int \<Rightarrow> string \<Rightarrow> int option" where
  "dailyBranch tz now schedule =
     (case rx_exec dailyRx schedule of
        None \<Rightarrow> None
      | Some dailyMatch \<Rightarrow>
          (let hours = parseInt10 (dailyMatch ! 1);
               minutes = parseInt10 (dailyMatch ! 2);
               target = setHours tz now hours minutes;
               target = (if target \<le> now then addOneDay tz target else target)
           in Some target))"

definition everyBranch :: "int \<Rightarrow> string \<Rightarrow> int option" where
  "everyBranch now schedule =
     (case rx_exec everyRx schedule of
        None \<Rightarrow> None
      | Some everyMatch \<Rightarrow>
          (let v = parseInt10 (everyMatch ! 1);
               unit = toLowerCase (everyMatch ! 2)
           in if startsWith unit ''min'' then Some (now + v * 60 * 1000)
              else if startsWith unit ''h'' then Some (now + v * 60 * 60 * 1000)
              else None))"

definition orElse :: "'a option \<Rightarrow> 'a option \<Rightarrow> 'a option" where
  "orElse x y = (case x of Some v \<Rightarrow> Some v | None \<Rightarrow> y)"

definition calculateNextRun :: "zone \<Rightarrow> int \<Rightarrow> string \<Rightarrow> int option" where
  "calculateNextRun tz now scheduleStr =
     (let schedule = trim (toLowerCase scheduleStr)
      in orElse (inBranch now schedule)
        (orElse (atBranch tz now schedule)
        (orElse (tomorrowBranch tz now schedule)
        (orElse (dailyBranch tz now schedule)
                (everyBranch now schedule)))))"

text \<open>
  \<open>handleCreateTask\<close> reads the form state (\<open>title\<close>, \<open>prompt\<close>, \<open>schedule\<close>,
  \<open>notifyBefore\<close>) and either returns at once, raises the alert, or sends the event
  \<open>scheduler.task.create\<close> and resets the form. Its effects are returned as a record;
  \<open>uuid\<close> is the value of \<open>crypto.randomUUID()\<close>. The test \<open>!nextRun\<close> holds for
  \<open>null\<close> and for \<open>0\<close>. The busy flag \<open>isSubmitting\<close>, which only greys out the
  button, is left out.
\<close>

record task_form =
  title :: string
  prompt :: string
  schedule :: string
  notifyBefore :: "int option"

record scheduled_task =
  task_id :: string
  task_title :: string
  task_prompt :: "string option"
  task_schedule :: string
  task_nextRun :: int
  task_isRecurring :: bool
  task_notifyBefore :: "int option"
  task_enabled :: bool

datatype client_event = SchedulerTaskCreate scheduled_task

record ui_effects =
  alerts :: "string list"
  sent :: "client_event list"
  form :: task_form
  formReset :: bool

definition emptyForm :: task_form where
  "emptyForm = \<lparr>title = [], prompt = [], schedule = [], notifyBefore = None\<rparr>"

definition handleCreateTask :: "zone \<Rightarrow> int \<Rightarrow> string \<Rightarrow> task_form \<Rightarrow> ui_effects" where
  "handleCreateTask tz now uuid f =
     (if trim (title f) = [] \<or> trim (schedule f) = []
      then \<lparr>alerts = [], sent = [], form = f, formReset = False\<rparr>
      else
        (case calculateNextRun tz now (schedule f) of
           None \<Rightarrow> \<lparr>alerts = [''Invalid schedule format''], sent = [], form = f, formReset = False\<rparr>
         | Some nextRun \<Rightarrow>
             if nextRun = 0
             then \<lparr>alerts = [''Invalid schedule format''], sent = [], form = f, formReset = False\<rparr>
             else
               (let isRecurring = (startsWith (schedule f) ''every'' \<or> startsWith (schedule f) ''daily'');
                    task = \<lparr>task_id = uuid,
                            task_title = trim (title f),
                            task_prompt = (if trim (prompt f) = [] then None else Some (trim (prompt f))),
                            task_schedule = schedule f,
                            task_nextRun = nextRun,
                            task_isRecurring = isRecurring,
                            task_notifyBefore = notifyBefore f,
                            task_enabled = True\<rparr>
                in \<lparr>alerts = [], sent = [SchedulerTaskCreate task], form = emptyForm, formReset = True\<rparr>)))"

section \<open>Notification preview\<close>

text \<open>
  \<open>text.replace(/\s+/g, " ")\<close> rewrites every maximal run of whitespace to one space;
  \<open>normalizeResponseText\<close> trims the result. \<open>truncateResponseText\<close> has the default
  limit \<open>BODY_LIMIT\<close>; \<open>slice(0, max)\<close> is \<open>take\<close>.
\<close>

function collapse_ws :: "string \<Rightarrow> string" where
  "collapse_ws [] = []"
| "collapse_ws (c # cs) =
     (if js_space c then CHR '' '' # collapse_ws (dropWhile js_space cs)
      else c # collapse_ws cs)"
  by pat_completeness auto
termination
  by (relation "measure length") (auto simp: less_Suc_eq_le length_dropWhile_le)

definition normalizeResponseText :: "string \<Rightarrow> string" where
  "normalizeResponseText text = trim (collapse_ws text)"

definition BODY_LIMIT :: int where
  "BODY_LIMIT = 140"

definition ELLIPSIS :: string where
  "ELLIPSIS = ''...''"

definition truncateResponseText :: "string \<Rightarrow> int \<Rightarrow> string" where
  "truncateResponseText text limit =
     (if int (length text) \<le> limit then text
      else (let mx = max 0 (limit - int (length ELLIPSIS))
            in trimEnd (take (nat mx) text) @ ELLIPSIS))"

definition buildNotificationBody :: "string option \<Rightarrow> string" where
  "buildNotificationBody rawText =
     (case rawText of
        None \<Rightarrow> []
      | Some text \<Rightarrow> if text = [] then []
                     else truncateResponseText (normalizeResponseText text) BODY_LIMIT)"

section \<open>Event router decisions\<close>

text \<open>
  \<^verbatim>\<open>src/electron/libs/notification-routing.ts\<close>:
  \<^verbatim>\<open>if (status !== "completed" && status !== "error") return false;\<close>
  \<^verbatim>\<open>if (!sessionId) return false;\<close>
  \<^verbatim>\<open>if (!focusedSessionId) return true;\<close>
  \<^verbatim>\<open>return focusedSessionId !== sessionId;\<close>
\<close>

definition shouldNotifyForSession :: "string \<Rightarrow> string option \<Rightarrow> string option \<Rightarrow> bool" where
  "shouldNotifyForSession status sessionId focusedSessionId =
     (if status \<noteq> ''completed'' \<and> status \<noteq> ''error'' then False
      else if falsy_str sessionId then False
      else if falsy_str focusedSessionId then True
      else focusedSessionId \<noteq> sessionId)"

text \<open>
  \<^verbatim>\<open>src/ui/utils/history-sync.ts\<close>; the event's session id has type \<open>string\<close>, and
  a status is a string at run time:
  \<^verbatim>\<open>if (!activeSessionId) return false;\<close>
  \<^verbatim>\<open>if (activeSessionId === sessionId) return false;\<close>
  \<^verbatim>\<open>return status === "completed" || status === "error";\<close>
\<close>

definition shouldMarkHistoryStale :: "string option \<Rightarrow> string \<Rightarrow> string \<Rightarrow> bool" where
  "shouldMarkHistoryStale activeSessionId sessionId status =
     (if falsy_str activeSessionId then False
      else if activeSessionId = Some sessionId then False
      else status = ''completed'' \<or> status = ''error'')"

section \<open>Tool schema offered to the model\<close>

text \<open>
  A tool definition carries its name under \<open>function.name\<close>; the rest of the definition
  (description, parameter schema) is kept as it is. The settings object has the three
  optional fields read by \<open>getTools\<close>; an absent field is \<open>None\<close>, and
  \<open>settings?.field\<close> is absent when the settings are \<open>null\<close>. The registered definitions
  (\<open>ALL_TOOL_DEFINITIONS\<close>, declared in another module) are a parameter.
\<close>

record tool_definition =
  name :: string
  description :: string
  parameters :: string

record api_settings =
  enableMemory :: "bool option"
  enableZaiReader :: "bool option"
  zaiApiKey :: "string option"

definition opt_field :: "(api_settings \<Rightarrow> 'a option) \<Rightarrow> api_settings option \<Rightarrow> 'a option" where
  "opt_field f settings = (case settings of None \<Rightarrow> None | Some s \<Rightarrow> f s)"

definition getTools :: "api_settings option \<Rightarrow> tool_definition list \<Rightarrow> tool_definition list" where
  "getTools settings ALL_TOOL_DEFINITIONS =
     (let tools = ALL_TOOL_DEFINITIONS;
          tools = (if falsy_bool (opt_field enableMemory settings)
                   then filter (\<lambda>tool. name tool \<noteq> ''manage_memory'') tools else tools);
          tools = (if falsy_bool (opt_field enableZaiReader settings)
                      \<or> falsy_str (opt_field zaiApiKey settings)
                   then filter (\<lambda>tool. name tool \<noteq> ''read_page'') tools else tools)
      in tools)"

section \<open>Paths\<close>

text \<open>
  \<open>path.resolve\<close> and \<open>path.normalize\<close> of Node.js on a POSIX platform (separator
  \<open>/\<close>). \<open>normalizeString\<close> drops empty and \<open>.\<close> segments and lets \<open>..\<close> remove the
  segment before it; above the root \<open>..\<close> is kept only for a relative path.
  \<open>resolve\<close> prepends its arguments from right to left until the path is absolute and
  falls back on the working directory \<open>processCwd\<close> of the process.
\<close>

fun splitPath :: "string \<Rightarrow> string list" where
  "splitPath [] = [[]]"
| "splitPath (c # cs) =
     (if c = CHR ''/'' then [] # splitPath cs
      else (case splitPath cs of seg # segs \<Rightarrow> (c # seg) # segs | [] \<Rightarrow> [[c]]))"

fun joinSegs :: "string list \<Rightarrow> string" where
  "joinSegs [] = []"
| "joinSegs [seg] = seg"
| "joinSegs (seg # segs) = seg @ ''/'' @ joinSegs segs"

fun normalizeSegs :: "bool \<Rightarrow> string list \<Rightarrow> string list \<Rightarrow> string list" where
  "normalizeSegs allowAboveRoot res [] = rev res"
| "normalizeSegs allowAboveRoot res (seg # segs) =
     (if seg = [] \<or> seg = ''.'' then normalizeSegs allowAboveRoot res segs
      else if seg = ''..'' then
        (case res of
           [] \<Rightarrow> normalizeSegs allowAboveRoot (if allowAboveRoot then [''..''] else []) segs
         | lastSeg # res' \<Rightarrow>
             if lastSeg \<noteq> ''..'' then normalizeSegs allowAboveRoot res' segs
             else normalizeSegs allowAboveRoot (if allowAboveRoot then ''..'' # res else res) segs)
      else normalizeSegs allowAboveRoot (seg # res) segs)"

definition normalizeString :: "string \<Rightarrow> bool \<Rightarrow> string" where
  "normalizeString path allowAboveRoot = joinSegs (normalizeSegs allowAboveRoot [] (splitPath path))"

fun resolveLoop :: "string list \<Rightarrow> string \<Rightarrow> string \<times> bool" where
  "resolveLoop [] resolvedPath = (resolvedPath, False)"
| "resolveLoop (path # paths) resolvedPath =
     (if path = [] then resolveLoop paths resolvedPath
      else if hd path = CHR ''/'' then (path @ ''/'' @ resolvedPath, True)
      else resolveLoop paths (path @ ''/'' @ resolvedPath))"

definition resolve :: "string \<Rightarrow> string list \<Rightarrow> string" where
  "resolve processCwd args =
     (case resolveLoop (rev args @ [processCwd]) [] of
        (resolvedPath, resolvedAbsolute) \<Rightarrow>
          (let p = normalizeString resolvedPath (\<not> resolvedAbsolute)
           in if resolvedAbsolute then ''/'' @ p
              else if p \<noteq> [] then p else ''.''))"

definition normalize :: "string \<Rightarrow> string" where
  "normalize path =
     (if path = [] then ''.''
      else
        (let isAbsolute = (hd path = CHR ''/'');
             trailingSeparator = (last path = CHR ''/'');
             p = normalizeString path (\<not> isAbsolute)
         in if p = [] then (if isAbsolute then ''/'' else if trailingSeparator then ''./'' else ''.'')
            else (let p = (if trailingSeparator then p @ ''/'' else p)
                  in if isAbsolute then ''/'' @ p else p)))"

section \<open>Isolated code execution\<close>

subsection \<open>File functions given to the script\<close>

text \<open>
  \<open>executeInQuickJS\<close> installs four functions under \<open>fs\<close>. Each one computes
  \<^verbatim>\<open>resolve(cwd, filePath.startsWith('/') ? filePath.slice(1) : filePath)\<close> and then
  calls the host's \<open>fs\<close> module. A call is modelled by its outcome for the script
  (\<open>Inl\<close> the message of the thrown \<open>Error\<close>, \<open>Inr\<close> the returned value) together
  with the list of host file-system calls it made. The host file system answers through
  the record \<open>host_fs\<close> (\<open>Inl\<close> the message of the exception it throws);
  \<open>isPathSafe\<close> is the predicate passed in by the caller.
\<close>

datatype host_call =
    HostReadFile string
  | HostWriteFile string string
  | HostExists string
  | HostReaddir string

datatype vm_value = VmString string | VmUndefined | VmTrue | VmFalse | VmArray "string list"

record host_fs =
  readFileSync :: "string \<Rightarrow> string + string"
  writeFileSync :: "string \<Rightarrow> string \<Rightarrow> string + unit"
  existsSync :: "string \<Rightarrow> bool"
  readdirSync :: "string \<Rightarrow> string + string list"

definition fullPathOf :: "string \<Rightarrow> string \<Rightarrow> string \<Rightarrow> string" where
  "fullPathOf processCwd cwd filePath =
     resolve processCwd [cwd, if startsWith filePath ''/'' then drop 1 filePath else filePath]"

definition readFileSyncFn ::
  "string \<Rightarrow> host_fs \<Rightarrow> string \<Rightarrow> (string \<Rightarrow> bool) \<Rightarrow> string \<Rightarrow> (string + vm_value) \<times> host_call list" where
  "readFileSyncFn processCwd host cwd isPathSafe filePath =
     (let fullPath = fullPathOf processCwd cwd filePath
      in if \<not> isPathSafe fullPath
         then (Inl (''Access denied: '' @ filePath @ '' is outside workspace''), [])
         else (case readFileSync host fullPath of
                 Inr content \<Rightarrow> (Inr (VmString content), [HostReadFile fullPath])
               | Inl msg \<Rightarrow> (Inl (''Cannot read file: '' @ msg), [HostReadFile fullPath])))"

definition writeFileSyncFn ::
  "string \<Rightarrow> host_fs \<Rightarrow> string \<Rightarrow> (string \<Rightarrow> bool) \<Rightarrow> string \<Rightarrow> string \<Rightarrow> (string + vm_value) \<times> host_call list" where
  "writeFileSyncFn processCwd host cwd isPathSafe filePath dat =
     (let fullPath = fullPathOf processCwd cwd filePath
      in if \<not> isPathSafe fullPath
         then (Inl (''Access denied: '' @ filePath @ '' is outside workspace''), [])
         else (case writeFileSync host fullPath dat of
                 Inr _ \<Rightarrow> (Inr VmUndefined, [HostWriteFile fullPath dat])
               | Inl msg \<Rightarrow> (Inl (''Cannot write file: '' @ msg), [HostWriteFile fullPath dat])))"

definition existsSyncFn ::
  "string \<Rightarrow> host_fs \<Rightarrow> string \<Rightarrow> (string \<Rightarrow> bool) \<Rightarrow> string \<Rightarrow> (string + vm_value) \<times> host_call list" where
  "existsSyncFn processCwd host cwd isPathSafe filePath =
     (let fullPath = fullPathOf processCwd cwd filePath
      in (Inr (if existsSync host fullPath then VmTrue else VmFalse), [HostExists fullPath]))"

definition readdirSyncFn ::
  "string \<Rightarrow> host_fs \<Rightarrow> string \<Rightarrow> (string \<Rightarrow> bool) \<Rightarrow> string \<Rightarrow> (string + vm_value) \<times> host_call list" where
  "readdirSyncFn processCwd host cwd isPathSafe dirPath =
     (let fullPath = fullPathOf processCwd cwd dirPath
      in if \<not> isPathSafe fullPath
         then (Inl (''Access denied: '' @ dirPath @ '' is outside workspace''), [])
         else (case readdirSync host fullPath of
                 Inr files \<Rightarrow> (Inr (VmArray files), [HostReaddir fullPath])
               | Inl msg \<Rightarrow> (Inl (''Cannot read directory: '' @ msg), [HostReaddir fullPath])))"

subsection \<open>Running the script\<close>

text \<open>
  The interpreter is the library \<open>quickjs-emscripten\<close>. Its contract is modelled as
  follows: a script is a machine with a start state and a step function, which either
  continues (\<open>Inl\<close>) or finishes with an error or a value (\<open>Inr\<close>); \<open>vm.evalCode\<close>
  runs the steps and consults the interrupt handler before each one, with the number of
  steps run so far as the elapsed time; when the handler answers true the evaluation
  stops with the error \<open>interrupted\<close>. A run that never finishes has the value
  \<open>None\<close>. The console sink and the text decoration of the tool result are left
  out.

  \<open>executeInQuickJS\<close> installs the handler \<^verbatim>\<open>() => { return false; }\<close>; its parameter
  \<open>timeout\<close> is not used in its body. \<open>executeJSTool\<close> computes
  \<^verbatim>\<open>Math.min(args.timeout || 5000, 30000)\<close> and passes it on.
\<close>

datatype eval_result = EvalError string | EvalValue string

record 's script =
  init :: 's
  step :: "'s \<Rightarrow> 's + eval_result"

partial_function (option) evalCode ::
  "(nat \<Rightarrow> bool) \<Rightarrow> ('s \<Rightarrow> 's + eval_result) \<Rightarrow> nat \<Rightarrow> 's \<Rightarrow> eval_result option" where
  "evalCode interruptHandler stp n s =
     (if interruptHandler n then Some (EvalError ''InternalError: interrupted'')
      else (case stp s of
              Inr res \<Rightarrow> Some res
            | Inl s' \<Rightarrow> evalCode interruptHandler stp (Suc n) s'))"

record QuickJSExecuteResult =
  success :: bool
  output_text :: string
  error_text :: "string option"

definition executeInQuickJS ::
  "'s script \<Rightarrow> string \<Rightarrow> (string \<Rightarrow> bool) \<Rightarrow> int \<Rightarrow> QuickJSExecuteResult option" where
  "executeInQuickJS code cwd isPathSafe timeout =
     (case evalCode (\<lambda>_. False) (step code) 0 (init code) of
        None \<Rightarrow> None
      | Some (EvalError errorObj) \<Rightarrow> Some \<lparr>success = False, output_text = [], error_text = Some errorObj\<rparr>
      | Some (EvalValue v) \<Rightarrow> Some \<lparr>success = True, output_text = v, error_text = None\<rparr>)"

record 's execute_js_args =
  code :: "'s script"
  explanation :: string
  timeout :: "int option"

datatype ToolResult = ToolSuccess string | ToolFailure string

definition executeJSTool ::
  "'s execute_js_args \<Rightarrow> string \<Rightarrow> (string \<Rightarrow> bool) \<Rightarrow> ToolResult option" where
  "executeJSTool args cwd isPathSafe =
     (let t = min (case timeout args of None \<Rightarrow> 5000 | Some t \<Rightarrow> if t = 0 then 5000 else t) 30000
      in case executeInQuickJS (code args) cwd isPathSafe t of
           None \<Rightarrow> None
         | Some result \<Rightarrow>
             Some (if success result then ToolSuccess (output_text result)
                   else ToolFailure (case error_text result of None \<Rightarrow> [] | Some e \<Rightarrow> e)))"

section \<open>Workspace-scoped handlers of the main process\<close>

text \<open>
  \<open>list-directory\<close>: the sessions are given by their \<open>cwd\<close> fields (\<open>None\<close> when
  absent). The handler either returns the empty list (\<open>ListDenied\<close>) or goes on to
  \<open>fs.readdir(dirPath)\<close> (\<open>ListReaddir dirPath\<close>). On code units below 256 the
  normalisation \<open>normalize("NFC")\<close> changes nothing.

  \<open>get-image-preview\<close>, on a platform other than \<open>win32\<close> (\<open>sep\<close> is \<open>/\<close>): \<open>Inl\<close>
  is the message of the thrown error, \<open>Inr fullPath\<close> means the handler goes on to
  \<open>fs.stat(fullPath)\<close>.
\<close>

definition nfc :: "string \<Rightarrow> string" where
  "nfc s = s"

datatype list_directory_result = ListDenied | ListReaddir string

definition list_directory :: "string \<Rightarrow> string option list \<Rightarrow> string \<Rightarrow> list_directory_result" where
  "list_directory processCwd allSessions dirPath =
     (let normalizedDirPath = nfc (toLowerCase (resolve processCwd [dirPath]));
          sessionCwd =
            (case find (\<lambda>s. case s of
                              None \<Rightarrow> False
                            | Some c \<Rightarrow> if c = [] then False
                                        else startsWith normalizedDirPath
                                               (nfc (toLowerCase (resolve processCwd [c]))))
                       allSessions of
               None \<Rightarrow> None
             | Some s \<Rightarrow> s)
      in case sessionCwd of
           None \<Rightarrow> ListDenied
         | Some c \<Rightarrow>
             if c = [] then ListDenied
             else
               (let normalizedCwd = nfc (toLowerCase (resolve processCwd [c]))
                in if \<not> startsWith normalizedDirPath normalizedCwd then ListDenied
                   else ListReaddir dirPath))"

definition sep :: string where
  "sep = ''/''"

definition get_image_preview :: "string \<Rightarrow> string option \<Rightarrow> string option \<Rightarrow> string + string" where
  "get_image_preview processCwd cwd path =
     (case (cwd, path) of
        (Some c, Some p) \<Rightarrow>
          if c = [] \<or> p = [] then Inl ''Missing image path or workspace folder''
          else
            (let normalizedCwd = normalize (resolve processCwd [c]);
                 fullPath = normalize (resolve processCwd [normalizedCwd, p]);
                 isWindows = False;
                 normalizedCwdCheck = (if isWindows then toLowerCase normalizedCwd else normalizedCwd);
                 fullPathCheck = (if isWindows then toLowerCase fullPath else fullPath);
                 cwdWithSep = (if endsWith normalizedCwdCheck sep then normalizedCwdCheck
                               else normalizedCwdCheck @ sep)
             in if \<not> (fullPathCheck = normalizedCwdCheck \<or> startsWith fullPathCheck cwdWithSep)
                then Inl ''Access denied: Path is outside the workspace folder''
                else Inr fullPath)
      | _ \<Rightarrow> Inl ''Missing image path or workspace folder'')"

section \<open>Vocabulary of the properties\<close>

text \<open>
  The local day number and the local time of day of an instant, and the local time
  value of the wall-clock time \<open>h:m\<close> on a local day. A wall-clock time exists in a
  zone when converting it to an instant and back gives it again (it does not fall into
  an hour skipped by a change of the offset). The clock agrees on an instant \<open>t\<close> and
  \<open>now\<close> when they compare as their local times do (the local clock is not set back
  between them).
\<close>

definition localDay :: "zone \<Rightarrow> int \<Rightarrow> int" where
  "localDay tz t = LocalTime tz t div MS_PER_DAY"

definition localTimeOfDay :: "zone \<Rightarrow> int \<Rightarrow> int" where
  "localTimeOfDay tz t = LocalTime tz t mod MS_PER_DAY"

definition wallClock :: "int \<Rightarrow> int \<Rightarrow> int \<Rightarrow> int" where
  "wallClock day h m = day * MS_PER_DAY + h * 3600000 + m * 60000"

definition wallClockExists :: "zone \<Rightarrow> int \<Rightarrow> bool" where
  "wallClockExists tz l = (LocalTime tz (UTC tz l) = l)"

definition clockAgrees :: "zone \<Rightarrow> int \<Rightarrow> int \<Rightarrow> bool" where
  "clockAgrees tz now t = ((t \<le> now) = (LocalTime tz t \<le> LocalTime tz now))"

text \<open>
  A zone is regular for \<open>now\<close> and the wall-clock time \<open>h:m\<close> when that time exists on
  the local day of \<open>now\<close> and on the next one, and the clock agrees on \<open>now\<close> and each
  of the two instants.
\<close>

definition zoneRegularFor :: "zone \<Rightarrow> int \<Rightarrow> int \<Rightarrow> int \<Rightarrow> bool" where
  "zoneRegularFor tz now h m =
     (let today = wallClock (localDay tz now) h m;
          tomorrow = wallClock (localDay tz now + 1) h m
      in wallClockExists tz today \<and> wallClockExists tz tomorrow
         \<and> clockAgrees tz now (UTC tz today) \<and> clockAgrees tz now (UTC tz tomorrow))"

text \<open>
  The zone of New York around 12 March 2023: five hours west of UTC until
  07:00 UTC of that day (02:00 local time), four hours west from then on. A local time
  value in the skipped hour is read with the offset before the change.
\<close>

definition newYorkMarch2023 :: zone where
  "newYorkMarch2023 t isUTC =
     (if isUTC then (if t < 1678604400000 then - 18000000 else - 14400000)
      else (if t < 1678590000000 then - 18000000 else - 14400000))"

text \<open>
  A descriptor matches none of the forms of the grammar when, lower-cased and trimmed
  as \<open>calculateNextRun\<close> does, it is matched by none of its five patterns.
\<close>

definition matches_no_form :: "string \<Rightarrow> bool" where
  "matches_no_form scheduleStr =
     (let schedule = trim (toLowerCase scheduleStr)
      in rx_exec inRx schedule = None \<and> rx_exec atRx schedule = None
         \<and> rx_exec tomorrowRx schedule = None \<and> rx_exec dailyRx schedule = None
         \<and> rx_exec everyRx schedule = None)"

text \<open>A word of lower-case ASCII letters, as the literals of the patterns are.\<close>

definition lower_word :: "string \<Rightarrow> bool" where
  "lower_word w = list_all (\<lambda>c. 97 \<le> (of_char c :: nat) \<and> (of_char c :: nat) \<le> 122) w"

text \<open>
  A text is whitespace-normalised when its only whitespace characters are single
  spaces between other characters: none at either end, no two in a row.
\<close>

definition whitespace_normalized :: "string \<Rightarrow> bool" where
  "whitespace_normalized n \<longleftrightarrow>
     (\<forall>c \<in> set n. js_space c \<longrightarrow> c = CHR '' '')
     \<and> successively (\<lambda>a b. \<not> (js_space a \<and> js_space b)) n
     \<and> (n \<noteq> [] \<longrightarrow> \<not> js_space (hd n) \<and> \<not> js_space (last n))"

text \<open>
  The script \<open>while (true) { }\<close>: a single state in which every step continues. A
  script that returns at once, for comparison.
\<close>

definition infiniteLoop :: "unit script" where
  "infiniteLoop = \<lparr>init = (), step = (\<lambda>s. Inl s)\<rparr>"

definition returnsAtOnce :: "string \<Rightarrow> unit script" where
  "returnsAtOnce v = \<lparr>init = (), step = (\<lambda>s. Inr (EvalValue v))\<rparr>"

text \<open>
  The predicate \<open>isPathSafe\<close> comes from the caller of the tool. An instance that
  confines paths to a workspace root, and a host file system with one file outside it,
  serve as concrete inputs.
\<close>

definition workspaceOnly :: "string \<Rightarrow> string \<Rightarrow> bool" where
  "workspaceOnly root p = (p = root \<or> startsWith p (root @ ''/''))"

definition hostWithPasswd :: host_fs where
  "hostWithPasswd =
     \<lparr>readFileSync = (\<lambda>p. if p = ''/etc/passwd'' then Inr ''root:x:0:0'' else Inl ''ENOENT''),
      writeFileSync = (\<lambda>p d. Inr ()),
      existsSync = (\<lambda>p. p = ''/etc/passwd''),
      readdirSync = (\<lambda>p. Inl ''ENOTDIR'')\<rparr>"

section \<open>Properties of the event router decisions\<close>

text \<open>
  The decision of \<open>shouldNotifyForSession\<close>, by its three guards. The session id
  counts as present when it is neither \<open>null\<close> nor empty.
\<close>

lemma shouldNotifyForSession_guards:
  "shouldNotifyForSession status sessionId focusedSessionId \<longleftrightarrow>
     (status = ''completed'' \<or> status = ''error'')
     \<and> \<not> falsy_str sessionId
     \<and> (falsy_str focusedSessionId \<or> focusedSessionId \<noteq> sessionId)"
  by (simp add: shouldNotifyForSession_def)

text \<open>
  Claim C4, as the code has it: \<open>shouldNotifyForSession\<close> returns true if and only if
  the status is \<open>completed\<close> or \<open>error\<close>, the session id is neither \<open>null\<close> nor the
  empty string, and either no session is focused or the focused session differs from the
  event's session. It is false for every event with status \<open>running\<close>, and false
  whenever the focused session equals the event's session.
\<close>

theorem shouldNotifyForSession_decision:
  "(shouldNotifyForSession status sessionId focusedSessionId \<longleftrightarrow>
      (status = ''completed'' \<or> status = ''error'')
      \<and> (\<exists>s. sessionId = Some s \<and> s \<noteq> [])
      \<and> (focusedSessionId = None \<or> focusedSessionId \<noteq> sessionId))
   \<and> \<not> shouldNotifyForSession ''running'' sessionId focusedSessionId
   \<and> (focusedSessionId = sessionId \<longrightarrow>
        \<not> shouldNotifyForSession status sessionId focusedSessionId)"
  by (cases sessionId; cases focusedSessionId)
     (auto simp: shouldNotifyForSession_guards falsy_str_def)

theorem shouldNotifyForSession_decision_witness:
  "shouldNotifyForSession ''error'' (Some ''A'') (Some ''B'')
   \<and> shouldNotifyForSession ''completed'' (Some ''A'') None
   \<and> \<not> shouldNotifyForSession ''running'' (Some ''A'') None
   \<and> (Some ''A'' = Some ''A'' \<and> \<not> shouldNotifyForSession ''completed'' (Some ''A'') (Some ''A''))"
  using shouldNotifyForSession_decision [of "''error''" "Some ''A''" "Some ''B''"]
    shouldNotifyForSession_decision [of "''completed''" "Some ''A''" None]
    shouldNotifyForSession_decision [of "''completed''" "Some ''A''" "Some ''A''"]
  by simp

text \<open>
  The claim as it is worded, with "present" read as "not \<open>null\<close>", fails for the empty
  session id: the status is \<open>completed\<close>, the id is not \<open>null\<close> and no session is
  focused, yet the function returns false.
\<close>

theorem shouldNotifyForSession_empty_id_counterexample:
  "\<not> (shouldNotifyForSession ''completed'' (Some []) None \<longleftrightarrow>
        (''completed'' = ''completed'' \<or> ''completed'' = ''error'')
        \<and> Some [] \<noteq> (None :: string option)
        \<and> ((None :: string option) = None \<or> None \<noteq> Some []))"
  by (simp add: shouldNotifyForSession_def falsy_str_def)

text \<open>
  Claim C5: \<open>shouldMarkHistoryStale\<close> returns true if and only if some session is
  focused (the active id is neither \<open>null\<close> nor empty), the event's session differs from
  it, and the status is \<open>completed\<close> or \<open>error\<close>. A \<open>running\<close> event never marks the
  history stale, and neither does any event for the focused session.
\<close>

theorem shouldMarkHistoryStale_decision:
  "(shouldMarkHistoryStale activeSessionId sessionId status \<longleftrightarrow>
      (\<exists>a. activeSessionId = Some a \<and> a \<noteq> [] \<and> a \<noteq> sessionId)
      \<and> (status = ''completed'' \<or> status = ''error''))
   \<and> \<not> shouldMarkHistoryStale activeSessionId sessionId ''running''
   \<and> \<not> shouldMarkHistoryStale (Some sessionId) sessionId status"
  by (cases activeSessionId) (auto simp: shouldMarkHistoryStale_def falsy_str_def)

theorem shouldMarkHistoryStale_decision_witness:
  "shouldMarkHistoryStale (Some ''A'') ''B'' ''completed''
   \<and> \<not> shouldMarkHistoryStale (Some ''A'') ''B'' ''running''
   \<and> \<not> shouldMarkHistoryStale (Some ''A'') ''A'' ''completed''"
  using shouldMarkHistoryStale_decision [of "Some ''A''" "''B''" "''completed''"]
    shouldMarkHistoryStale_decision [of "Some ''A''" "''A''" "''completed''"]
  by simp

section \<open>Properties of the tool schema\<close>

lemma falsy_bool_iff: "falsy_bool x \<longleftrightarrow> x \<noteq> Some True"
  by (cases x) (auto simp: falsy_bool_def)

text \<open>
  Claim C9: for every settings value, \<open>getTools\<close> keeps the registered definitions in
  their order and drops exactly those named \<open>manage_memory\<close> unless \<open>enableMemory\<close> is
  set, and those named \<open>read_page\<close> unless both \<open>enableZaiReader\<close> and a non-empty
  \<open>zaiApiKey\<close> are set; every other definition is returned unchanged.
\<close>

theorem getTools_filters_disabled:
  "getTools settings registered =
     filter (\<lambda>tool.
        (name tool = ''manage_memory'' \<longrightarrow> opt_field enableMemory settings = Some True)
        \<and> (name tool = ''read_page'' \<longrightarrow>
             opt_field enableZaiReader settings = Some True
             \<and> (\<exists>k. opt_field zaiApiKey settings = Some k \<and> k \<noteq> [])))
       registered"
proof -
  have key: "falsy_str (opt_field zaiApiKey settings) \<longleftrightarrow>
      \<not> (\<exists>k. opt_field zaiApiKey settings = Some k \<and> k \<noteq> [])"
    by (cases "opt_field zaiApiKey settings") (auto simp: falsy_str_def)
  show ?thesis
    unfolding getTools_def Let_def falsy_bool_iff key
    by (auto intro!: filter_cong simp: filter_id_conv)
qed

theorem getTools_filters_disabled_witness:
  "getTools None
     [\<lparr>name = ''manage_memory'', description = ''m'', parameters = ''{}''\<rparr>,
      \<lparr>name = ''read_file'', description = ''r'', parameters = ''{}''\<rparr>,
      \<lparr>name = ''read_page'', description = ''p'', parameters = ''{}''\<rparr>]
   = [\<lparr>name = ''read_file'', description = ''r'', parameters = ''{}''\<rparr>]"
  using getTools_filters_disabled [of None
     "[\<lparr>name = ''manage_memory'', description = ''m'', parameters = ''{}''\<rparr>,
       \<lparr>name = ''read_file'', description = ''r'', parameters = ''{}''\<rparr>,
       \<lparr>name = ''read_page'', description = ''p'', parameters = ''{}''\<rparr>]"]
  by (simp add: opt_field_def)

section \<open>Properties of the notification preview\<close>

lemma js_space_blank: "js_space CHR '' ''"
  by (simp add: js_space_def)

lemma length_trimEnd_le: "length (trimEnd s) \<le> length s"
  by (simp add: trimEnd_def length_dropWhile_le [of js_space "rev s", simplified])

lemma filter_dropWhile_neg: "filter (\<lambda>c. \<not> P c) (dropWhile P xs) = filter (\<lambda>c. \<not> P c) xs"
  by (induction xs) auto

lemma filter_trimEnd: "filter (\<lambda>c. \<not> js_space c) (trimEnd s) = filter (\<lambda>c. \<not> js_space c) s"
proof -
  have "filter (\<lambda>c. \<not> js_space c) (rev (dropWhile js_space (rev s)))
          = rev (filter (\<lambda>c. \<not> js_space c) (dropWhile js_space (rev s)))"
    by (simp add: rev_filter)
  also have "\<dots> = rev (filter (\<lambda>c. \<not> js_space c) (rev s))"
    by (simp only: filter_dropWhile_neg)
  also have "\<dots> = filter (\<lambda>c. \<not> js_space c) s"
    by (simp add: rev_filter)
  finally show ?thesis by (simp add: trimEnd_def)
qed

lemma filter_trim: "filter (\<lambda>c. \<not> js_space c) (trim s) = filter (\<lambda>c. \<not> js_space c) s"
  by (simp add: trim_def filter_trimEnd trimStart_def filter_dropWhile_neg)

lemma filter_collapse_ws: "filter (\<lambda>c. \<not> js_space c) (collapse_ws s) = filter (\<lambda>c. \<not> js_space c) s"
  by (induction s rule: collapse_ws.induct) (simp_all add: filter_dropWhile_neg js_space_blank)

lemma set_collapse_ws_space: "c \<in> set (collapse_ws s) \<Longrightarrow> js_space c \<Longrightarrow> c = CHR '' ''"
  by (induction s rule: collapse_ws.induct) (auto split: if_splits)

lemma hd_collapse_ws_dropWhile:
  assumes "collapse_ws (dropWhile js_space cs) \<noteq> []"
  shows "\<not> js_space (hd (collapse_ws (dropWhile js_space cs)))"
proof (cases "dropWhile js_space cs")
  case Nil
  with assms show ?thesis by simp
next
  case (Cons d ds)
  then have "\<not> js_space d" using hd_dropWhile [of js_space cs] by auto
  with Cons show ?thesis by simp
qed

lemma successively_collapse_ws:
  "successively (\<lambda>a b. \<not> (js_space a \<and> js_space b)) (collapse_ws s)"
proof (induction s rule: collapse_ws.induct)
  case 1
  then show ?case by simp
next
  case (2 c cs)
  show ?case
  proof (cases "js_space c")
    case True
    with 2 have IH: "successively (\<lambda>a b. \<not> (js_space a \<and> js_space b)) (collapse_ws (dropWhile js_space cs))"
      by simp
    show ?thesis
    proof (cases "collapse_ws (dropWhile js_space cs)")
      case Nil
      with True show ?thesis by simp
    next
      case (Cons d ds)
      with hd_collapse_ws_dropWhile [of cs] have "\<not> js_space d" by simp
      with True IH Cons show ?thesis by simp
    qed
  next
    case False
    with 2 have IH: "successively (\<lambda>a b. \<not> (js_space a \<and> js_space b)) (collapse_ws cs)"
      by simp
    with False show ?thesis by (cases "collapse_ws cs") simp_all
  qed
qed

lemma successively_dropWhile_keep: "successively R xs \<Longrightarrow> successively R (dropWhile P xs)"
proof -
  assume "successively R xs"
  then have "successively R (takeWhile P xs @ dropWhile P xs)" by simp
  then show ?thesis by (simp only: successively_append_iff)
qed

lemma successively_trim:
  assumes "successively (\<lambda>a b. \<not> (js_space a \<and> js_space b)) s"
  shows "successively (\<lambda>a b. \<not> (js_space a \<and> js_space b)) (trim s)"
proof -
  let ?R = "\<lambda>a b. \<not> (js_space a \<and> js_space b)"
  have 1: "successively ?R (trimStart s)"
    using assms by (simp add: trimStart_def successively_dropWhile_keep)
  then have "successively (\<lambda>a b. ?R b a) (rev (trimStart s))"
    by (simp add: successively_rev)
  then have "successively (\<lambda>a b. ?R b a) (dropWhile js_space (rev (trimStart s)))"
    by (rule successively_dropWhile_keep)
  then have "successively ?R (rev (dropWhile js_space (rev (trimStart s))))"
    by (simp add: successively_rev)
  then show ?thesis by (simp add: trim_def trimEnd_def)
qed

lemma trim_ends:
  assumes "trim s \<noteq> []"
  shows "\<not> js_space (hd (trim s))" and "\<not> js_space (last (trim s))"
proof -
  let ?t = "trimStart s"
  let ?d = "dropWhile js_space (rev ?t)"
  from assms have d: "?d \<noteq> []" by (simp add: trim_def trimEnd_def)
  then have "\<not> js_space (hd ?d)" by (rule hd_dropWhile)
  moreover have "last (trim s) = hd ?d" using d by (simp add: trim_def trimEnd_def last_rev)
  ultimately show "\<not> js_space (last (trim s))" by simp
  have "rev ?t = takeWhile js_space (rev ?t) @ ?d" by simp
  then have "?t = rev ?d @ rev (takeWhile js_space (rev ?t))"
    by (metis rev_append rev_rev_ident)
  then have "hd ?t = hd (rev ?d)" using d by (metis hd_append2 rev_is_Nil_conv)
  moreover have "?t \<noteq> []" using d by auto
  then have "\<not> js_space (hd ?t)" unfolding trimStart_def by (rule hd_dropWhile)
  ultimately show "\<not> js_space (hd (trim s))" by (simp add: trim_def trimEnd_def)
qed

lemma set_trim_subset: "set (trim s) \<subseteq> set s"
proof -
  have "set (trimEnd t) \<subseteq> set t" for t
    using set_dropWhileD [of _ js_space "rev t"] by (auto simp: trimEnd_def)
  moreover have "set (trimStart s) \<subseteq> set s"
    using set_dropWhileD [of _ js_space s] by (auto simp: trimStart_def)
  ultimately show ?thesis unfolding trim_def by blast
qed

lemma normalizeResponseText_normalized: "whitespace_normalized (normalizeResponseText text)"
  unfolding whitespace_normalized_def normalizeResponseText_def
proof (intro conjI ballI impI)
  fix c assume "c \<in> set (trim (collapse_ws text))" and "js_space c"
  then show "c = CHR '' ''"
    using set_trim_subset [of "collapse_ws text"] set_collapse_ws_space [of c "text"]
    by blast
next
  show "successively (\<lambda>a b. \<not> (js_space a \<and> js_space b)) (trim (collapse_ws text))"
    by (rule successively_trim [OF successively_collapse_ws])
next
  assume "trim (collapse_ws text) \<noteq> []"
  then show "\<not> js_space (hd (trim (collapse_ws text)))"
    and "\<not> js_space (last (trim (collapse_ws text)))"
    by (simp_all add: trim_ends)
qed

lemma normalizeResponseText_keeps_text:
  "filter (\<lambda>c. \<not> js_space c) (normalizeResponseText text) = filter (\<lambda>c. \<not> js_space c) text"
  by (simp add: normalizeResponseText_def filter_trim filter_collapse_ws)

lemma length_truncateResponseText: "length (truncateResponseText text 140) \<le> 140"
proof (cases "length text \<le> 140")
  case True
  then show ?thesis by (simp add: truncateResponseText_def)
next
  case False
  have "length (trimEnd (take 137 text)) \<le> 137"
    using length_trimEnd_le [of "take 137 text"] by simp
  with False show ?thesis by (simp add: truncateResponseText_def ELLIPSIS_def Let_def)
qed

text \<open>
  Claim C10: for every input, \<open>buildNotificationBody\<close> returns a string of at most
  140 characters. A \<open>null\<close> or empty input gives the empty string. Otherwise the text
  is whitespace-normalised, keeping its other characters; when the normalised text has at
  most 140 characters it is returned as it is, and else its first 137 characters, without
  trailing whitespace, are returned followed by three dots.
\<close>

theorem buildNotificationBody_bounded:
  "length (buildNotificationBody rawText) \<le> 140
   \<and> (rawText = None \<or> rawText = Some [] \<longrightarrow> buildNotificationBody rawText = [])
   \<and> (\<forall>text. rawText = Some text \<and> text \<noteq> [] \<longrightarrow>
        (let n = normalizeResponseText text
         in whitespace_normalized n
            \<and> filter (\<lambda>c. \<not> js_space c) n = filter (\<lambda>c. \<not> js_space c) text
            \<and> (length n \<le> 140 \<longrightarrow> buildNotificationBody rawText = n)
            \<and> (140 < length n \<longrightarrow>
                 buildNotificationBody rawText = trimEnd (take 137 n) @ ''...'')))"
proof (intro conjI allI impI)
  show "length (buildNotificationBody rawText) \<le> 140"
    using length_truncateResponseText
    by (auto simp: buildNotificationBody_def BODY_LIMIT_def split: option.splits)
next
  assume "rawText = None \<or> rawText = Some []"
  then show "buildNotificationBody rawText = []"
    by (auto simp: buildNotificationBody_def)
next
  fix t assume "rawText = Some t \<and> t \<noteq> []"
  then show "let n = normalizeResponseText t
         in whitespace_normalized n
            \<and> filter (\<lambda>c. \<not> js_space c) n = filter (\<lambda>c. \<not> js_space c) t
            \<and> (length n \<le> 140 \<longrightarrow> buildNotificationBody rawText = n)
            \<and> (140 < length n \<longrightarrow>
                 buildNotificationBody rawText = trimEnd (take 137 n) @ ''...'')"
    by (simp add: Let_def normalizeResponseText_normalized normalizeResponseText_keeps_text
        buildNotificationBody_def BODY_LIMIT_def truncateResponseText_def ELLIPSIS_def)
qed


theorem buildNotificationBody_bounded_witness:
  "length (buildNotificationBody (Some ''  build   finished ok '')) \<le> 140
   \<and> buildNotificationBody (Some ''  build   finished ok '') = ''build finished ok''
   \<and> buildNotificationBody None = []"
  using buildNotificationBody_bounded [of "Some ''  build   finished ok ''"]
    buildNotificationBody_bounded [of None]
  by (simp add: Let_def normalizeResponseText_def trim_def trimEnd_def trimStart_def js_space_def)

section \<open>Properties of the scheduler\<close>

subsection \<open>Characters\<close>

lemma js_digit_not_space: "js_digit c \<Longrightarrow> \<not> js_space c"
  by (auto simp: js_digit_def js_space_def)

lemma ascii_fold_digit: "js_digit c \<Longrightarrow> ascii_fold c = c"
  by (auto simp: js_digit_def ascii_fold_def)

lemma toLowerChar_digit: "js_digit c \<Longrightarrow> toLowerChar c = c"
  by (auto simp: js_digit_def toLowerChar_def)

lemma toLowerCase_digits: "list_all js_digit ds \<Longrightarrow> toLowerCase ds = ds"
  by (induction ds) (simp_all add: toLowerCase_def toLowerChar_digit)

lemma toLowerCase_append: "toLowerCase (a @ b) = toLowerCase a @ toLowerCase b"
  by (simp add: toLowerCase_def)

lemma ci_eq_digit: "js_digit c \<Longrightarrow> \<not> js_digit l \<Longrightarrow> \<not> ci_eq l c"
proof
  assume c: "js_digit c" and l: "\<not> js_digit l" and "ci_eq l c"
  then have eq: "ascii_fold l = c" by (simp add: ci_eq_def ascii_fold_digit)
  show False
  proof (cases "65 \<le> (of_char l :: nat) \<and> (of_char l :: nat) \<le> 90")
    case True
    then have "(of_char (ascii_fold l) :: nat) = of_char l + 32"
      by (simp add: ascii_fold_def)
    with True c eq show False by (simp add: js_digit_def)
  next
    case False
    then have "ascii_fold l = l" by (auto simp: ascii_fold_def)
    with eq c l show False by simp
  qed
qed

lemma ci_eq_refl: "ci_eq c c"
  by (simp add: ci_eq_def)

lemma trim_id:
  assumes "s \<noteq> []" "\<not> js_space (hd s)" "\<not> js_space (last s)"
  shows "trim s = s"
proof -
  from assms have 1: "trimStart s = s" by (cases s) (simp_all add: trimStart_def)
  from assms have "rev s \<noteq> []" "\<not> js_space (hd (rev s))" by (simp_all add: hd_rev)
  then have "dropWhile js_space (rev s) = rev s" by (cases "rev s") simp_all
  then show ?thesis by (simp add: trim_def 1 trimEnd_def)
qed

subsection \<open>Evaluation rules of the matcher\<close>

lemma match_Lit_Nil: "rx_match (Lit []) s = [([], s)]"
  by (simp add: rx_match.simps)

lemma match_Lit_Cons_Nil: "rx_match (Lit (c # w)) [] = []"
  by (simp add: rx_match.simps)

lemma match_Lit_Cons_Cons:
  "rx_match (Lit (c # w)) (d # s) = (if ci_eq c d then rx_match (Lit w) s else [])"
  by (simp add: rx_match.simps)

lemmas rx_eval = rx_match.simps(2-6,8) match_Lit_Nil match_Lit_Cons_Nil match_Lit_Cons_Cons

lemma prepend_no_groups: "map (\<lambda>(g', r'). ([] @ g', r')) xs = xs"
  by (induction xs) auto

lemma match_Star_Space_stop: "\<not> js_space c \<Longrightarrow> rx_match (Star Space) (c # s) = [([], c # s)]"
  by (simp add: rx_match.simps)

lemma match_Star_Space_step:
  "js_space c \<Longrightarrow> rx_match (Star Space) (c # s) = rx_match (Star Space) s @ [([], c # s)]"
  by (subst rx_match.simps(7)) (simp add: rx_match.simps(2) prepend_no_groups)

lemma match_Star_Digit_Nil: "rx_match (Star Digit) [] = [([], [])]"
  by (simp add: rx_match.simps)

lemma match_Star_Digit_stop: "\<not> js_digit c \<Longrightarrow> rx_match (Star Digit) (c # s) = [([], c # s)]"
  by (simp add: rx_match.simps)

lemma match_Star_Digit_step:
  "js_digit c \<Longrightarrow> rx_match (Star Digit) (c # s) = rx_match (Star Digit) s @ [([], c # s)]"
  by (subst rx_match.simps(7)) (simp add: rx_match.simps(3) prepend_no_groups)

lemma match_Seq_Lit_fail: "\<not> ci_eq c d \<Longrightarrow> rx_match (Seq (Lit (c # w)) R) (d # s) = []"
  by (simp add: rx_eval)

lemma match_Seq_Lit_step:
  "ci_eq c d \<Longrightarrow> rx_match (Seq (Lit (c # w)) R) (d # s) = rx_match (Seq (Lit w) R) s"
  by (simp add: rx_eval)

lemma match_Seq_Lit_done: "rx_match (Seq (Lit []) R) s = rx_match R s"
  by (simp add: rx_eval prepend_no_groups)

lemma match_Seq_Plus_Space_one:
  "\<not> js_space d \<Longrightarrow> rx_match (Seq (Plus Space) R) (CHR '' '' # d # s) = rx_match R (d # s)"
  by (simp add: rx_eval Plus_def js_space_def [of "CHR '' ''"] match_Star_Space_stop prepend_no_groups)

lemma rx_exec_Nil: "rx_match r s = [] \<Longrightarrow> rx_exec r s = None"
  by (simp add: rx_exec_def)

subsection \<open>A run of digits followed by something that is no digit\<close>

lemma concat_Star_Digit:
  assumes "list_all js_digit ds" and "rest = [] \<or> \<not> js_digit (hd rest)"
    and van: "\<And>g c r. js_digit c \<Longrightarrow> H (g, c # r) = []"
  shows "concat (map H (rx_match (Star Digit) (ds @ rest))) = H ([], rest)"
  using assms(1)
proof (induction ds)
  case Nil
  show ?case
  proof (cases rest)
    case Nil
    then show ?thesis by (simp add: match_Star_Digit_Nil)
  next
    case (Cons c r)
    with assms(2) have "\<not> js_digit c" by simp
    with Cons show ?thesis by (simp add: match_Star_Digit_stop)
  qed
next
  case (Cons d ds)
  then have d: "js_digit d" and ds: "list_all js_digit ds" by simp_all
  from Cons.IH [OF ds] d show ?case
    by (simp add: match_Star_Digit_step van)
qed

lemma match_Seq_Group_digits:
  assumes ds: "list_all js_digit ds" and ne: "ds \<noteq> []"
    and rest: "rest = [] \<or> \<not> js_digit (hd rest)"
    and van: "\<And>c r. js_digit c \<Longrightarrow> rx_match b (c # r) = []"
  shows "rx_match (Seq (Group (Plus Digit)) b) (ds @ rest)
           = map (\<lambda>(g', r'). (ds # g', r')) (rx_match b rest)"
proof -
  from ne obtain d ds' where split: "ds = d # ds'" by (cases ds) auto
  with ds have d: "js_digit d" and ds': "list_all js_digit ds'" by simp_all
  let ?s = "ds @ rest"
  let ?H = "\<lambda>(g, r). map (\<lambda>(g', r'). ((take (length ?s - length r) ?s # g) @ g', r')) (rx_match b r)"
  have "rx_match (Seq (Group (Plus Digit)) b) ?s
          = concat (map ?H (rx_match (Star Digit) (ds' @ rest)))"
    using d by (simp add: rx_match.simps(2-6,8) split Plus_def prepend_no_groups comp_def case_prod_unfold map_concat)
  also have "\<dots> = ?H ([], rest)"
    by (rule concat_Star_Digit [OF ds' rest]) (simp add: van)
  also have "\<dots> = map (\<lambda>(g', r'). (ds # g', r')) (rx_match b rest)"
    by simp
  finally show ?thesis .
qed

lemma units_after_digit:
  assumes "js_digit c"
  shows "rx_match (Seq (Star Space) (Group unitsEvery)) (c # r) = []"
  using assms
  by (simp add: rx_eval unitsEvery_def match_Star_Space_stop js_digit_not_space ci_eq_digit js_digit_def [of "CHR ''m''"] js_digit_def [of "CHR ''h''"])

lemma units_minutes:
  "rx_match (Seq (Star Space) (Group unitsEvery)) '' minutes''
     = [([''minutes''], []), ([''minute''], ''s''), ([''min''], ''utes'')]"
  by (simp add: rx_eval unitsEvery_def match_Star_Space_stop match_Star_Space_step js_space_def ci_eq_def ascii_fold_def)

lemma units_hours:
  "rx_match (Seq (Star Space) (Group unitsEvery)) '' hours''
     = [([''hours''], []), ([''hour''], ''s'')]"
  by (simp add: rx_eval unitsEvery_def match_Star_Space_stop match_Star_Space_step js_space_def ci_eq_def ascii_fold_def)

lemma every_exec:
  assumes "list_all js_digit ds" "ds \<noteq> []"
    and u: "u = '' minutes'' \<or> u = '' hours''"
  shows "rx_exec everyRx (''every '' @ ds @ u) = Some [''every '' @ ds @ u, ds, tl u]"
proof -
  from assms obtain d ds' where split: "ds = d # ds'" by (cases ds) auto
  with assms have d: "\<not> js_space d" by (simp add: js_digit_not_space)
  have rest: "u = [] \<or> \<not> js_digit (hd u)" using u by (auto simp: js_digit_def)
  have "find (\<lambda>(g, rest). rest = []) (rx_match (Seq (Group (Plus Digit)) (Seq (Star Space) (Group unitsEvery))) (ds @ u))
        = Some ([ds, tl u], [])"
    using u
    by (subst match_Seq_Group_digits [OF assms(1,2) rest]) (auto simp: units_after_digit units_minutes units_hours)
  moreover have "rx_match everyRx (''every '' @ ds @ u)
       = rx_match (Seq (Group (Plus Digit)) (Seq (Star Space) (Group unitsEvery))) (ds @ u)"
    unfolding everyRx_def split
    using d by (simp add: match_Seq_Lit_step match_Seq_Lit_done match_Seq_Plus_Space_one ci_eq_def)
  ultimately show ?thesis by (simp add: rx_exec_def)
qed

subsection \<open>Interval descriptors\<close>

lemma every_not_in:
  "rx_exec inRx (''every '' @ t) = None"
  by (rule rx_exec_Nil) (simp add: inRx_def match_Seq_Lit_fail ci_eq_def ascii_fold_def)

lemma every_not_at:
  "rx_exec atRx (''every '' @ t) = None"
  by (rule rx_exec_Nil) (simp add: atRx_def match_Seq_Lit_fail ci_eq_def ascii_fold_def)

lemma every_not_tomorrow:
  "rx_exec tomorrowRx (''every '' @ t) = None"
  by (rule rx_exec_Nil) (simp add: tomorrowRx_def match_Seq_Lit_fail ci_eq_def ascii_fold_def)

lemma every_digit_not_daily:
  assumes "js_digit d"
  shows "rx_exec dailyRx (''every '' @ d # t) = None"
proof -
  have "\<not> js_digit CHR ''d''" by (simp add: js_digit_def)
  with assms have nd: "\<not> ci_eq CHR ''d'' d" by (simp add: ci_eq_digit)
  have sp: "\<not> js_space d" using assms by (rule js_digit_not_space)
  have "rx_match (Seq (Lit ''every'') (Seq (Plus Space) (Lit ''day''))) (''every '' @ d # t) = []"
    using nd sp
    by (simp add: match_Seq_Lit_step match_Seq_Lit_done match_Seq_Plus_Space_one
        match_Lit_Cons_Cons ci_eq_refl)
  moreover have "rx_match (Lit ''daily'') (''every '' @ d # t) = []"
    by (simp add: match_Lit_Cons_Cons ci_eq_def ascii_fold_def)
  ultimately have "rx_match (Alt (Seq (Lit ''every'') (Seq (Plus Space) (Lit ''day''))) (Lit ''daily'')) (''every '' @ d # t) = []"
    by (simp add: rx_match.simps(5))
  then show ?thesis
    by (intro rx_exec_Nil) (simp add: dailyRx_def rx_match.simps(4))
qed

lemma every_descriptor_normal:
  assumes "list_all js_digit ds" and u: "u = '' minutes'' \<or> u = '' hours''"
  shows "trim (toLowerCase (''every '' @ ds @ u)) = ''every '' @ ds @ u"
proof -
  have "toLowerCase ''every '' = ''every ''" and "toLowerCase u = u"
    using u by (auto simp: toLowerCase_def toLowerChar_def)
  then have low: "toLowerCase (''every '' @ ds @ u) = ''every '' @ ds @ u"
    using assms(1) by (simp only: toLowerCase_append toLowerCase_digits)
  have "trim (''every '' @ ds @ u) = ''every '' @ ds @ u"
    using u by (intro trim_id) (auto simp: js_space_def)
  with low show ?thesis by simp
qed

lemma every_branch:
  assumes "list_all js_digit ds" "ds \<noteq> []"
  shows "everyBranch now (''every '' @ ds @ '' minutes'') = Some (now + parseInt10 ds * 60000)"
    and "everyBranch now (''every '' @ ds @ '' hours'') = Some (now + parseInt10 ds * 3600000)"
  using every_exec [OF assms, of "'' minutes''"] every_exec [OF assms, of "'' hours''"]
  by (simp_all add: everyBranch_def startsWith_def toLowerCase_def toLowerChar_def)

text \<open>
  Claim C6: evaluated at any time \<open>now\<close>, the descriptor \<open>every N minutes\<close> yields
  \<open>now\<close> plus \<open>N\<close> minutes and \<open>every N hours\<close> yields \<open>now\<close> plus \<open>N\<close> hours, for
  every decimal numeral \<open>N\<close>. The result depends on the descriptor and the instant of
  evaluation only, so re-evaluating the descriptor when the task fires gives the firing
  time plus the interval. The bounds keep all numbers in the range where JavaScript
  arithmetic is exact.
\<close>

theorem every_interval_nextRun:
  assumes "list_all js_digit ds" and "ds \<noteq> []"
    and "0 \<le> now" and "now + parseInt10 ds * 3600000 < 2 ^ 53"
  shows "calculateNextRun tz now (''every '' @ ds @ '' minutes'') = Some (now + parseInt10 ds * (60 * 1000))
       \<and> calculateNextRun tz now (''every '' @ ds @ '' hours'') = Some (now + parseInt10 ds * (60 * 60 * 1000))"
proof -
  from assms(1,2) obtain d ds' where split: "ds = d # ds'" and d: "js_digit d"
    by (cases ds) auto
  have "calculateNextRun tz now (''every '' @ ds @ u) = everyBranch now (''every '' @ ds @ u)"
    if "u = '' minutes'' \<or> u = '' hours''" for u
    unfolding calculateNextRun_def Let_def every_descriptor_normal [OF assms(1) that]
    using every_not_in [of "ds @ u"] every_not_at [of "ds @ u"] every_not_tomorrow [of "ds @ u"]
      every_digit_not_daily [OF d, of "ds' @ u"]
    by (simp add: split orElse_def inBranch_def atBranch_def tomorrowBranch_def dailyBranch_def)
  then show ?thesis using every_branch [OF assms(1,2), of now] by simp
qed

lemma parseInt10_30: "parseInt10 ''30'' = 30"
  by (simp add: parseInt10_def js_digit_def digit_value_def)

theorem every_interval_nextRun_witness:
  "calculateNextRun (fixedOffset 0) 1700000000000 ''every 30 minutes'' = Some (1700000000000 + 30 * 60 * 1000)
   \<and> calculateNextRun (fixedOffset 0) 1700000123456 ''every 30 minutes'' = Some (1700000123456 + 30 * 60 * 1000)"
  using every_interval_nextRun [of "''30''" 1700000000000 "fixedOffset 0"]
    every_interval_nextRun [of "''30''" 1700000123456 "fixedOffset 0"]
  by (simp add: parseInt10_30 js_digit_def)

subsection \<open>Daily descriptors\<close>

lemma hhmm_match:
  assumes hh: "list_all js_digit hh" "length hh = 1 \<or> length hh = 2"
    and mm: "list_all js_digit mm" "length mm = 2"
  shows "rx_match hhmm (hh @ '':'' @ mm) = [([hh, mm], [])]"
proof -
  have colon: "\<not> js_digit CHR '':''" by (simp add: js_digit_def)
  from mm obtain c d where mm': "mm = [c, d]" "js_digit c" "js_digit d"
    by (cases mm; cases "tl mm") auto
  from hh(2) show ?thesis
  proof
    assume "length hh = 1"
    with hh(1) obtain a where "hh = [a]" "js_digit a" by (cases hh) auto
    then show ?thesis using mm' colon
      by (simp add: hhmm_def rx_eval ci_eq_refl)
  next
    assume "length hh = 2"
    with hh(1) obtain a b where "hh = [a, b]" "js_digit a" "js_digit b"
      by (cases hh; cases "tl hh") auto
    then show ?thesis using mm' colon ci_eq_digit [of b "CHR '':''"]
      by (simp add: hhmm_def rx_eval ci_eq_refl)
  qed
qed

lemma daily_prefix_alt:
  assumes p: "p = ''daily'' \<or> p = ''every day''"
  shows "rx_match (Alt (Seq (Lit ''every'') (Seq (Plus Space) (Lit ''day''))) (Lit ''daily'')) (p @ t)
           = [([], t)]"
  using p
proof
  assume "p = ''daily''"
  then show ?thesis
    by (simp add: rx_match.simps(5) match_Seq_Lit_fail match_Lit_Cons_Cons match_Lit_Nil
        ci_eq_def ascii_fold_def)
next
  have nsp: "\<not> js_space CHR ''d''" by (simp add: js_space_def)
  assume "p = ''every day''"
  then show ?thesis using nsp
    by (simp add: rx_match.simps(5) match_Seq_Lit_step match_Seq_Lit_done match_Seq_Plus_Space_one
        match_Lit_Cons_Cons match_Lit_Nil ci_eq_def ascii_fold_def)
qed

lemma daily_exec:
  assumes hh: "list_all js_digit hh" "length hh = 1 \<or> length hh = 2"
    and mm: "list_all js_digit mm" "length mm = 2"
    and p: "p = ''daily'' \<or> p = ''every day''"
  shows "rx_exec dailyRx (p @ '' at '' @ hh @ '':'' @ mm) = Some [p @ '' at '' @ hh @ '':'' @ mm, hh, mm]"
proof -
  from hh obtain a hh' where split: "hh = a # hh'" and a: "js_digit a" by (cases hh) auto
  then have sp: "\<not> js_space a" by (simp add: js_digit_not_space)
  have nsp: "\<not> js_space CHR ''a''" by (simp add: js_space_def)
  let ?R = "Seq (Plus Space) (Seq (Lit ''at'') (Seq (Plus Space) hhmm))"
  have "rx_match dailyRx (p @ '' at '' @ hh @ '':'' @ mm) = rx_match ?R ('' at '' @ hh @ '':'' @ mm)"
    unfolding dailyRx_def
    by (subst rx_match.simps(4)) (simp add: daily_prefix_alt [OF p] prepend_no_groups)
  also have "\<dots> = rx_match hhmm (hh @ '':'' @ mm)"
    unfolding split using sp nsp
    by (simp add: match_Seq_Plus_Space_one match_Seq_Lit_step match_Seq_Lit_done ci_eq_refl)
  finally show ?thesis using hhmm_match [OF hh mm] by (simp add: rx_exec_def)
qed


lemma daily_not_others:
  assumes p: "p = ''daily'' \<or> p = ''every day''"
  shows "rx_exec inRx (p @ t) = None" "rx_exec atRx (p @ t) = None" "rx_exec tomorrowRx (p @ t) = None"
  using p
  by (auto intro!: rx_exec_Nil simp: inRx_def atRx_def tomorrowRx_def match_Seq_Lit_fail ci_eq_def ascii_fold_def)

lemma daily_descriptor_normal:
  assumes "list_all js_digit hh" "list_all js_digit mm" "mm \<noteq> []"
    and p: "p = ''daily'' \<or> p = ''every day''"
  shows "trim (toLowerCase (p @ '' at '' @ hh @ '':'' @ mm)) = p @ '' at '' @ hh @ '':'' @ mm"
proof -
  have "toLowerCase p = p" and "toLowerCase '' at '' = '' at ''" and "toLowerCase '':'' = '':''"
    using p by (auto simp: toLowerCase_def toLowerChar_def)
  then have low: "toLowerCase (p @ '' at '' @ hh @ '':'' @ mm) = p @ '' at '' @ hh @ '':'' @ mm"
    using assms(1,2) by (simp only: toLowerCase_append toLowerCase_digits)
  have "js_digit (last mm)" using assms(2,3) by (simp add: list_all_iff)
  then have "\<not> js_space (last mm)" by (rule js_digit_not_space)
  then have "trim (p @ '' at '' @ hh @ '':'' @ mm) = p @ '' at '' @ hh @ '':'' @ mm"
    using p assms(3) by (intro trim_id) (auto simp: js_space_def)
  with low show ?thesis by simp
qed

lemma daily_calculateNextRun:
  assumes hh: "list_all js_digit hh" "length hh = 1 \<or> length hh = 2"
    and mm: "list_all js_digit mm" "length mm = 2"
    and p: "p = ''daily'' \<or> p = ''every day''"
  shows "calculateNextRun tz now (p @ '' at '' @ hh @ '':'' @ mm) =
           Some (let target = setHours tz now (parseInt10 hh) (parseInt10 mm)
                 in if target \<le> now then addOneDay tz target else target)"
proof -
  from mm have ne: "mm \<noteq> []" by auto
  show ?thesis
    unfolding calculateNextRun_def Let_def daily_descriptor_normal [OF hh(1) mm(1) ne p]
    using daily_not_others [OF p, of "'' at '' @ hh @ '':'' @ mm"] daily_exec [OF hh mm p]
    by (simp add: orElse_def inBranch_def atBranch_def tomorrowBranch_def dailyBranch_def Let_def)
qed

subsection \<open>The next occurrence of a time of day\<close>

text \<open>
  \<open>parseInt\<close> of a string is never negative here (a sign is not a digit). In a zone
  that is regular for \<open>now\<close> and the wall-clock time \<open>h:m\<close>, the instant computed by the
  daily branch lies after \<open>now\<close> and shows \<open>h:m\<close> on the local clock, today when that
  time is still ahead and tomorrow otherwise. A zone of constant offset is regular
  everywhere, and there the instant is at most one day ahead. In New York on
  11 March 2023 at 11:00 local time, \<open>daily at 10:00\<close> gives 10:00 of 12 March, the
  day of the change to summer time, 23 hours later.
\<close>

lemma parseInt10_nonneg_aux: "0 \<le> acc \<Longrightarrow> 0 \<le> foldl (\<lambda>acc c. 10 * acc + digit_value c) acc (takeWhile js_digit s)"
  by (induction s arbitrary: acc) (auto simp: js_digit_def digit_value_def)

lemma parseInt10_nonneg: "0 \<le> parseInt10 s"
  by (simp add: parseInt10_def parseInt10_nonneg_aux)

lemma daily_wall_clock:
  fixes h m now :: int and tz :: zone
  assumes "0 \<le> h" "h < 24" "0 \<le> m" "m < 60" and reg: "zoneRegularFor tz now h m"
  defines "r \<equiv> (let target = setHours tz now h m in if target \<le> now then addOneDay tz target else target)"
  shows "now < r"
    and "LocalTime tz r = wallClock (if localTimeOfDay tz now < h * 3600000 + m * 60000
                                     then localDay tz now else localDay tz now + 1) h m"
proof -
  define L where "L = LocalTime tz now"
  define d where "d = L div 86400000"
  define tod where "tod = L mod 86400000"
  define x where "x = h * 3600000 + m * 60000"
  define l0 where "l0 = d * 86400000 + x"
  define l1 where "l1 = (d + 1) * 86400000 + x"
  have x: "0 \<le> x" "x < 86400000" using assms(1-4) by (auto simp: x_def)
  have tod: "0 \<le> tod" "tod < 86400000" by (simp_all add: tod_def)
  have L: "L = d * 86400000 + tod" by (simp add: d_def tod_def)
  have w0: "wallClock (localDay tz now) h m = l0"
    and w1: "wallClock (localDay tz now + 1) h m = l1"
    by (simp_all add: wallClock_def localDay_def MS_PER_DAY_def l0_def l1_def d_def L_def x_def)
  from reg have E0: "LocalTime tz (UTC tz l0) = l0" and E1: "LocalTime tz (UTC tz l1) = l1"
    and A0: "(UTC tz l0 \<le> now) = (LocalTime tz (UTC tz l0) \<le> L)"
    and A1: "(UTC tz l1 \<le> now) = (LocalTime tz (UTC tz l1) \<le> L)"
    by (simp_all add: zoneRegularFor_def Let_def w0 w1 wallClockExists_def clockAgrees_def L_def)
  have sh: "setHours tz now h m = UTC tz l0"
    by (simp add: setHours_def MS_PER_DAY_def l0_def d_def L_def x_def add.assoc)
  have "l0 + 86400000 = l1" by (simp add: l0_def l1_def algebra_simps)
  moreover have "addOneDay tz (UTC tz l0) = UTC tz (l0 + 86400000)"
    by (simp add: addOneDay_def E0 MS_PER_DAY_def)
  ultimately have next_day: "addOneDay tz (UTC tz l0) = UTC tz l1" by simp
  have r: "r = (if UTC tz l0 \<le> now then UTC tz l1 else UTC tz l0)"
    by (simp add: r_def sh Let_def next_day)
  have c0: "(UTC tz l0 \<le> now) = (x \<le> tod)"
    unfolding A0 E0 by (simp add: l0_def L)
  have "\<not> l1 \<le> L" using x tod by (simp add: l1_def L algebra_simps)
  then have c1: "now < UTC tz l1" using A1 E1 by simp
  show "now < r" using c1 by (simp add: r)
  have tod': "localTimeOfDay tz now = tod" and d': "localDay tz now = d"
    by (simp_all add: localTimeOfDay_def localDay_def MS_PER_DAY_def tod_def d_def L_def)
  show "LocalTime tz r = wallClock (if localTimeOfDay tz now < h * 3600000 + m * 60000
                                     then localDay tz now else localDay tz now + 1) h m"
  proof (cases "x \<le> tod")
    case True
    then have "LocalTime tz r = l1" by (simp add: r c0 E1)
    moreover have "wallClock (d + 1) h m = l1" using w1 d' by simp
    ultimately show ?thesis using True by (simp add: tod' d' x_def)
  next
    case False
    then have "LocalTime tz r = l0" by (simp add: r c0 E0)
    moreover have "wallClock d h m = l0" using w0 d' by simp
    ultimately show ?thesis using False by (simp add: tod' d' x_def)
  qed
qed

lemma fixedOffset_regular: "zoneRegularFor (fixedOffset off) now h m"
  by (auto simp: zoneRegularFor_def Let_def wallClockExists_def clockAgrees_def LocalTime_def UTC_def fixedOffset_def)

lemma fixedOffset_next_occurrence:
  fixes h m off now :: int
  assumes "0 \<le> h" "h < 24" "0 \<le> m" "m < 60"
  defines "tz \<equiv> fixedOffset off"
  defines "r \<equiv> (let target = setHours tz now h m in if target \<le> now then addOneDay tz target else target)"
  defines "x \<equiv> h * 3600000 + m * 60000"
  shows "r = (if localTimeOfDay tz now < x then now - localTimeOfDay tz now + x
              else now - localTimeOfDay tz now + x + MS_PER_DAY)"
    and "r \<le> now + MS_PER_DAY"
    and "localTimeOfDay tz r = x"
proof -
  define tod where "tod = localTimeOfDay tz now"
  have tod: "0 \<le> tod" "tod < 86400000" by (simp_all add: tod_def localTimeOfDay_def MS_PER_DAY_def)
  have x: "0 \<le> x" "x < 86400000" using assms(1-4) by (auto simp: x_def)
  have lt: "LocalTime tz t = t + off" and ut: "UTC tz t = t - off" for t
    by (simp_all add: tz_def LocalTime_def UTC_def fixedOffset_def)
  have day: "((now + off) div 86400000) * 86400000 = now + off - tod"
    by (simp add: tod_def localTimeOfDay_def lt MS_PER_DAY_def minus_mod_eq_div_mult [symmetric])
  have sh: "setHours tz now h m = now - tod + x"
    by (simp add: setHours_def lt ut MS_PER_DAY_def day x_def)
  show r: "r = (if localTimeOfDay tz now < x then now - localTimeOfDay tz now + x
              else now - localTimeOfDay tz now + x + MS_PER_DAY)"
    unfolding r_def Let_def sh tod_def [symmetric]
    by (auto simp: addOneDay_def lt ut)
  show "r \<le> now + MS_PER_DAY"
    using x tod unfolding r tod_def [symmetric] by (auto simp: MS_PER_DAY_def)
  have k: "(k * 86400000 + x) mod 86400000 = x" for k using x by simp
  have "r + off = (now + off - tod) + x \<or> r + off = (now + off - tod) + 86400000 + x"
    unfolding r tod_def [symmetric] by (auto simp: MS_PER_DAY_def)
  then have "r + off = ((now + off) div 86400000) * 86400000 + x
      \<or> r + off = ((now + off) div 86400000 + 1) * 86400000 + x"
    unfolding day [symmetric] by (simp add: algebra_simps)
  then have "(r + off) mod 86400000 = x"
    using k [of "(now + off) div 86400000"] k [of "(now + off) div 86400000 + 1"] by auto
  then show "localTimeOfDay tz r = x" by (simp add: localTimeOfDay_def lt MS_PER_DAY_def)
qed


lemma daily_across_offset_change:
  "calculateNextRun newYorkMarch2023 1678550400000 ''daily at 10:00'' = Some 1678629600000"
proof -
  have d: "list_all js_digit ''10''" "length ''10'' = 1 \<or> length ''10'' = 2"
    "list_all js_digit ''00''" "length ''00'' = 2" by (simp_all add: js_digit_def)
  have v: "parseInt10 ''10'' = 10" "parseInt10 ''00'' = 0"
    by (simp_all add: parseInt10_def js_digit_def digit_value_def)
  show ?thesis
    using daily_calculateNextRun [OF d, of "''daily''" newYorkMarch2023 1678550400000]
    by (simp add: v setHours_def addOneDay_def LocalTime_def UTC_def newYorkMarch2023_def MS_PER_DAY_def)
qed

text \<open>
  Claim C7: for a time of day \<open>HH:MM\<close> (hours below 24, minutes below 60), the
  descriptors \<open>daily at HH:MM\<close> and \<open>every day at HH:MM\<close> yield the next occurrence
  of that local time of day: an instant after \<open>now\<close> whose local time is \<open>HH:MM\<close> of
  the local day of \<open>now\<close> when the time has not passed yet, and of the next local day
  otherwise. This holds in every zone that is regular for \<open>now\<close> and \<open>HH:MM\<close>, changes
  of the offset in between included. In particular \<open>daily at 10:00\<close> evaluated at
  09:00 of a day yields 10:00 of the same day, and evaluated at 11:00 yields 10:00 of
  the next day. Where the offset is constant the instant is
  \<open>now - tod + target\<close>, plus one day when the time has passed, and at most one day
  ahead.
\<close>

theorem daily_next_occurrence:
  "(list_all js_digit hh \<and> (length hh = 1 \<or> length hh = 2)
      \<and> list_all js_digit mm \<and> length mm = 2
      \<and> parseInt10 hh < 24 \<and> parseInt10 mm < 60
      \<and> (p = ''daily'' \<or> p = ''every day'')
      \<and> zoneRegularFor tz now (parseInt10 hh) (parseInt10 mm) \<longrightarrow>
    (\<exists>r. calculateNextRun tz now (p @ '' at '' @ hh @ '':'' @ mm) = Some r
        \<and> now < r
        \<and> LocalTime tz r =
            wallClock (if localTimeOfDay tz now < parseInt10 hh * 3600000 + parseInt10 mm * 60000
                       then localDay tz now else localDay tz now + 1)
              (parseInt10 hh) (parseInt10 mm)))
   \<and> (zoneRegularFor tz t9 10 0 \<and> LocalTime tz t9 = wallClock day 9 0 \<longrightarrow>
        (\<exists>r. calculateNextRun tz t9 ''daily at 10:00'' = Some r \<and> t9 < r
           \<and> LocalTime tz r = wallClock day 10 0))
   \<and> (zoneRegularFor tz t11 10 0 \<and> LocalTime tz t11 = wallClock day 11 0 \<longrightarrow>
        (\<exists>r. calculateNextRun tz t11 ''daily at 10:00'' = Some r \<and> t11 < r
           \<and> LocalTime tz r = wallClock (day + 1) 10 0))
   \<and> (list_all js_digit hh \<and> (length hh = 1 \<or> length hh = 2)
      \<and> list_all js_digit mm \<and> length mm = 2
      \<and> parseInt10 hh < 24 \<and> parseInt10 mm < 60
      \<and> (p = ''daily'' \<or> p = ''every day'') \<longrightarrow>
    (let target = parseInt10 hh * 3600000 + parseInt10 mm * 60000;
         tod = localTimeOfDay (fixedOffset off) now
     in \<exists>r. calculateNextRun (fixedOffset off) now (p @ '' at '' @ hh @ '':'' @ mm) = Some r
          \<and> r = (if tod < target then now - tod + target else now - tod + target + MS_PER_DAY)
          \<and> now < r \<and> r \<le> now + MS_PER_DAY
          \<and> localTimeOfDay (fixedOffset off) r = target))
   \<and> calculateNextRun (fixedOffset off) (day * MS_PER_DAY + 9 * 3600000 - off) ''daily at 10:00''
         = Some (day * MS_PER_DAY + 10 * 3600000 - off)
   \<and> calculateNextRun (fixedOffset off) (day * MS_PER_DAY + 11 * 3600000 - off) ''daily at 10:00''
         = Some ((day + 1) * MS_PER_DAY + 10 * 3600000 - off)"
proof -
  have d10: "list_all js_digit ''10''" "length ''10'' = 1 \<or> length ''10'' = 2"
    "list_all js_digit ''00''" "length ''00'' = 2" by (simp_all add: js_digit_def)
  have v10: "parseInt10 ''10'' = 10" "parseInt10 ''00'' = 0"
    by (simp_all add: parseInt10_def js_digit_def digit_value_def)
  have run10: "calculateNextRun z t ''daily at 10:00''
       = Some (let target = setHours z t 10 0 in if target \<le> t then addOneDay z target else target)"
    for z t
    using daily_calculateNextRun [OF d10, of "''daily''" z t] by (simp add: v10)
  have general: "\<exists>r. calculateNextRun z t (q @ '' at '' @ a @ '':'' @ b) = Some r \<and> t < r
        \<and> LocalTime z r =
            wallClock (if localTimeOfDay z t < parseInt10 a * 3600000 + parseInt10 b * 60000
                       then localDay z t else localDay z t + 1) (parseInt10 a) (parseInt10 b)"
    if "list_all js_digit a" "length a = 1 \<or> length a = 2" "list_all js_digit b" "length b = 2"
      "parseInt10 a < 24" "parseInt10 b < 60" "q = ''daily'' \<or> q = ''every day''"
      "zoneRegularFor z t (parseInt10 a) (parseInt10 b)" for z t q a b
    using daily_calculateNextRun [OF that(1-4) that(7), of z t]
      daily_wall_clock [OF parseInt10_nonneg that(5) parseInt10_nonneg that(6) that(8)]
    by simp
  have example: "\<exists>r. calculateNextRun z t ''daily at 10:00'' = Some r \<and> t < r
        \<and> LocalTime z r = wallClock (if k < 10 then dy else dy + 1) 10 0"
    if reg: "zoneRegularFor z t 10 0" and at: "LocalTime z t = wallClock dy k 0" and k: "0 \<le> k" "k < 24"
    for z t dy k
  proof -
    have "LocalTime z t = dy * 86400000 + k * 3600000"
      using at by (simp add: wallClock_def MS_PER_DAY_def)
    moreover have "(dy * 86400000 + k * 3600000) div 86400000 = dy"
      and "(dy * 86400000 + k * 3600000) mod 86400000 = k * 3600000" using k by simp_all
    ultimately have "localDay z t = dy" "localTimeOfDay z t = k * 3600000"
      by (simp_all add: localDay_def localTimeOfDay_def MS_PER_DAY_def)
    then show ?thesis
      using daily_wall_clock [of 10 0 z t, OF _ _ _ _ reg] run10 [of z t] by simp
  qed
  have fixed: "let target = parseInt10 a * 3600000 + parseInt10 b * 60000;
         tod = localTimeOfDay (fixedOffset off) now
     in \<exists>r. calculateNextRun (fixedOffset off) now (q @ '' at '' @ a @ '':'' @ b) = Some r
          \<and> r = (if tod < target then now - tod + target else now - tod + target + MS_PER_DAY)
          \<and> now < r \<and> r \<le> now + MS_PER_DAY
          \<and> localTimeOfDay (fixedOffset off) r = target"
    if "list_all js_digit a" "length a = 1 \<or> length a = 2" "list_all js_digit b" "length b = 2"
      "parseInt10 a < 24" "parseInt10 b < 60" "q = ''daily'' \<or> q = ''every day''" for q a b
  proof -
    define r where "r = (let target = setHours (fixedOffset off) now (parseInt10 a) (parseInt10 b)
                         in if target \<le> now then addOneDay (fixedOffset off) target else target)"
    have run: "calculateNextRun (fixedOffset off) now (q @ '' at '' @ a @ '':'' @ b) = Some r"
      using daily_calculateNextRun [OF that(1-4) that(7), of "fixedOffset off" now]
      by (simp add: r_def)
    have later: "now < r"
      unfolding r_def
      by (rule daily_wall_clock(1) [OF parseInt10_nonneg that(5) parseInt10_nonneg that(6)
            fixedOffset_regular])
    have formula: "r = (if localTimeOfDay (fixedOffset off) now < parseInt10 a * 3600000 + parseInt10 b * 60000
                        then now - localTimeOfDay (fixedOffset off) now + (parseInt10 a * 3600000 + parseInt10 b * 60000)
                        else now - localTimeOfDay (fixedOffset off) now + (parseInt10 a * 3600000 + parseInt10 b * 60000) + MS_PER_DAY)"
      unfolding r_def
      by (rule fixedOffset_next_occurrence(1) [OF parseInt10_nonneg that(5) parseInt10_nonneg that(6)])
    have bound: "r \<le> now + MS_PER_DAY"
      unfolding r_def
      by (rule fixedOffset_next_occurrence(2) [OF parseInt10_nonneg that(5) parseInt10_nonneg that(6)])
    have tod: "localTimeOfDay (fixedOffset off) r = parseInt10 a * 3600000 + parseInt10 b * 60000"
      unfolding r_def
      by (rule fixedOffset_next_occurrence(3) [OF parseInt10_nonneg that(5) parseInt10_nonneg that(6)])
    show ?thesis
      unfolding Let_def
      using run later formula bound tod by blast
  qed
  have m9: "(day * 86400000 + 32400000) div 86400000 = day"
    and m11: "(day * 86400000 + 39600000) div 86400000 = day" by simp_all
  have f9: "calculateNextRun (fixedOffset off) (day * MS_PER_DAY + 9 * 3600000 - off) ''daily at 10:00''
         = Some (day * MS_PER_DAY + 10 * 3600000 - off)"
    unfolding run10
    by (simp add: setHours_def addOneDay_def LocalTime_def UTC_def fixedOffset_def MS_PER_DAY_def m9)
  have f11: "calculateNextRun (fixedOffset off) (day * MS_PER_DAY + 11 * 3600000 - off) ''daily at 10:00''
         = Some ((day + 1) * MS_PER_DAY + 10 * 3600000 - off)"
    unfolding run10
    by (simp add: setHours_def addOneDay_def LocalTime_def UTC_def fixedOffset_def MS_PER_DAY_def m11 algebra_simps)
  show ?thesis
    using general [of hh mm p tz now] example [of tz t9 day 9] example [of tz t11 day 11]
      fixed [of hh mm p] f9 f11
    by simp
qed

theorem daily_next_occurrence_witness:
  "zoneRegularFor newYorkMarch2023 1678550400000 10 0
   \<and> (\<exists>r. calculateNextRun newYorkMarch2023 1678550400000 ''daily at 10:00'' = Some r
          \<and> 1678550400000 < r \<and> LocalTime newYorkMarch2023 r = 1678615200000)
   \<and> calculateNextRun (fixedOffset 0) (19000 * 86400000 + 9 * 3600000) ''daily at 10:00''
        = Some (19000 * 86400000 + 10 * 3600000)
   \<and> calculateNextRun (fixedOffset 0) (19000 * 86400000 + 11 * 3600000) ''daily at 10:00''
        = Some (19001 * 86400000 + 10 * 3600000)
   \<and> (\<exists>r. calculateNextRun (fixedOffset 3600000) 1700000000000 ''every day at 7:30'' = Some r
          \<and> 1700000000000 < r \<and> r \<le> 1700000000000 + 86400000
          \<and> localTimeOfDay (fixedOffset 3600000) r = 7 * 3600000 + 30 * 60000)"
proof -
  have v: "parseInt10 ''7'' = 7" "parseInt10 ''30'' = 30" "parseInt10 ''10'' = 10" "parseInt10 ''00'' = 0"
    by (simp_all add: parseInt10_def js_digit_def digit_value_def)
  have reg: "zoneRegularFor newYorkMarch2023 1678550400000 10 0"
    by (simp add: zoneRegularFor_def Let_def wallClockExists_def clockAgrees_def wallClock_def localDay_def
        LocalTime_def UTC_def newYorkMarch2023_def MS_PER_DAY_def)
  have loc: "localTimeOfDay newYorkMarch2023 1678550400000 = 39600000"
    "localDay newYorkMarch2023 1678550400000 = 19427"
    by (simp_all add: localTimeOfDay_def localDay_def LocalTime_def newYorkMarch2023_def MS_PER_DAY_def)
  show ?thesis
    using daily_next_occurrence [where hh = "''10''" and mm = "''00''" and p = "''daily''"
        and tz = newYorkMarch2023 and now = 1678550400000 and off = 0 and day = 19000]
      daily_next_occurrence [where hh = "''7''" and mm = "''30''" and p = "''every day''"
        and off = 3600000 and now = 1700000000000]
    by (simp add: v reg loc js_digit_def MS_PER_DAY_def Let_def wallClock_def)
qed

subsection \<open>Shape of a match\<close>

text \<open>
  Whatever the input, a match of one of the patterns has exactly two groups; the first
  is a non-empty run of digits, and the unit of an interval starts with \<open>min\<close>, \<open>h\<close>
  or \<open>d\<close>. So the indices read by \<open>calculateNextRun\<close> exist, \<open>parseInt\<close> is given
  digits, and a matched descriptor always yields a timestamp.
\<close>

lemma in_Seq:
  "(g, r) \<in> set (rx_match (Seq a b) s) \<longleftrightarrow>
     (\<exists>g1 r1 g2. (g1, r1) \<in> set (rx_match a s) \<and> (g2, r) \<in> set (rx_match b r1) \<and> g = g1 @ g2)"
  by (force simp: rx_match.simps(4))

lemma ci_eq_lower:
  assumes "ci_eq c d" and "97 \<le> (of_char c :: nat)" "(of_char c :: nat) \<le> 122"
  shows "toLowerChar d = c"
proof -
  from assms(2,3) have c: "ascii_fold c = c" by (simp add: ascii_fold_def)
  with assms(1) have d: "ascii_fold d = c" by (simp add: ci_eq_def)
  show ?thesis
  proof (cases "65 \<le> (of_char d :: nat) \<and> (of_char d :: nat) \<le> 90")
    case True
    then show ?thesis using d by (simp add: ascii_fold_def toLowerChar_def)
  next
    case False
    then have "d = c" using d by (auto simp: ascii_fold_def)
    then show ?thesis using assms(2,3) by (simp add: toLowerChar_def)
  qed
qed

lemma in_Lit:
  assumes "(g, r) \<in> set (rx_match (Lit w) s)" and "lower_word w"
  shows "g = [] \<and> (\<exists>p. s = p @ r \<and> toLowerCase p = w)"
proof -
  from assms(1) have g: "g = []" and len: "length w \<le> length s"
    and eq: "list_all2 ci_eq w (take (length w) s)" and r: "r = drop (length w) s"
    by (auto simp: rx_match.simps(1) split: if_splits)
  have "toLowerCase p = w" if "list_all2 ci_eq w p" "lower_word w" for p
    using that by (induction w p rule: list_all2_induct) (auto simp: toLowerCase_def lower_word_def ci_eq_lower)
  with eq assms(2) have "toLowerCase (take (length w) s) = w" by blast
  moreover have "s = take (length w) s @ r" by (simp add: r)
  ultimately show ?thesis using g by blast
qed

lemma in_Star_Space:
  "(g, r) \<in> set (rx_match (Star Space) s) \<Longrightarrow> g = [] \<and> (\<exists>p. s = p @ r \<and> list_all js_space p)"
proof (induction s)
  case Nil
  then show ?case by (simp add: rx_match.simps)
next
  case (Cons c s)
  show ?case
  proof (cases "js_space c")
    case True
    have step: "rx_match (Star Space) (c # s) = rx_match (Star Space) s @ [([], c # s)]"
      using True by (rule match_Star_Space_step)
    from Cons.prems [unfolded step] consider "(g, r) \<in> set (rx_match (Star Space) s)" | "g = []" "r = c # s"
      by auto
    then show ?thesis
    proof cases
      case 1
      from Cons.IH [OF 1] obtain p where "g = []" "s = p @ r" "list_all js_space p" by blast
      then have "c # s = (c # p) @ r" "list_all js_space (c # p)" using True by simp_all
      with \<open>g = []\<close> show ?thesis by blast
    next
      case 2
      then show ?thesis by auto
    qed
  next
    case False
    with Cons.prems show ?thesis by (auto simp: rx_match.simps)
  qed
qed

lemma in_Star_Digit:
  "(g, r) \<in> set (rx_match (Star Digit) s) \<Longrightarrow> g = [] \<and> (\<exists>p. s = p @ r \<and> list_all js_digit p)"
proof (induction s)
  case Nil
  then show ?case by (simp add: rx_match.simps)
next
  case (Cons c s)
  show ?case
  proof (cases "js_digit c")
    case True
    have step: "rx_match (Star Digit) (c # s) = rx_match (Star Digit) s @ [([], c # s)]"
      using True by (rule match_Star_Digit_step)
    from Cons.prems [unfolded step] consider "(g, r) \<in> set (rx_match (Star Digit) s)" | "g = []" "r = c # s"
      by auto
    then show ?thesis
    proof cases
      case 1
      from Cons.IH [OF 1] obtain p where "g = []" "s = p @ r" "list_all js_digit p" by blast
      then have "c # s = (c # p) @ r" "list_all js_digit (c # p)" using True by simp_all
      with \<open>g = []\<close> show ?thesis by blast
    next
      case 2
      then show ?thesis by auto
    qed
  next
    case False
    with Cons.prems show ?thesis by (auto simp: rx_match.simps)
  qed
qed

lemma in_Plus_Space:
  assumes "(g, r) \<in> set (rx_match (Plus Space) s)"
  shows "g = []"
  using assms in_Star_Space
  by (fastforce simp: Plus_def in_Seq rx_match.simps(2) split: list.splits if_splits)

lemma in_Plus_Digit:
  assumes "(g, r) \<in> set (rx_match (Plus Digit) s)"
  shows "g = [] \<and> (\<exists>p. s = p @ r \<and> p \<noteq> [] \<and> list_all js_digit p)"
proof -
  from assms obtain g1 r1 g2 where 1: "(g1, r1) \<in> set (rx_match Digit s)"
    and 2: "(g2, r) \<in> set (rx_match (Star Digit) r1)" and g: "g = g1 @ g2"
    by (auto simp: Plus_def in_Seq)
  from 1 obtain c where s: "s = c # r1" "js_digit c" "g1 = []"
    by (auto simp: rx_match.simps(3) split: list.splits if_splits)
  from in_Star_Digit [OF 2] obtain p where "g2 = []" "r1 = p @ r" "list_all js_digit p" by blast
  with s g have "g = []" "s = (c # p) @ r" "c # p \<noteq> []" "list_all js_digit (c # p)" by simp_all
  then show ?thesis by blast
qed

lemma in_Group:
  "(g, r) \<in> set (rx_match (Group a) s) \<longleftrightarrow>
     (\<exists>g'. (g', r) \<in> set (rx_match a s) \<and> g = take (length s - length r) s # g')"
  by (force simp: rx_match.simps(8))

lemma rx_match_suffix: "(g, r) \<in> set (rx_match a s) \<Longrightarrow> \<exists>p. s = p @ r"
proof (induction a s arbitrary: g r rule: rx_match.induct)
  case (1 w s)
  then have "r = drop (length w) s" by (auto simp: rx_match.simps(1) split: if_splits)
  then have "s = take (length w) s @ r" by simp
  then show ?case by blast
next
  case (2 s)
  then show ?case by (auto simp: rx_match.simps(2) split: list.splits if_splits)
next
  case (3 s)
  then show ?case by (auto simp: rx_match.simps(3) split: list.splits if_splits)
next
  case (4 a b s)
  from "4.prems" obtain g1 r1 g2 where 1: "(g1, r1) \<in> set (rx_match a s)"
    and 2: "(g2, r) \<in> set (rx_match b r1)" by (auto simp: in_Seq)
  from "4.IH"(1) [OF 1] obtain p1 where "s = p1 @ r1" by blast
  moreover from "4.IH"(2) [OF 1 refl 2] obtain p2 where "r1 = p2 @ r" by blast
  ultimately have "s = (p1 @ p2) @ r" by simp
  then show ?case by blast
next
  case (5 a b s)
  then show ?case by (auto simp: rx_match.simps(5))
next
  case (6 a s)
  then show ?case by (auto simp: rx_match.simps(6))
next
  case (7 a s)
  from "7.prems" consider "g = []" "r = s"
    | g1 r1 g2 where "(g1, r1) \<in> set (rx_match a s)" "length r1 < length s"
        "(g2, r) \<in> set (rx_match (Star a) r1)"
    by (subst (asm) rx_match.simps(7)) (auto split: if_splits)
  then show ?case
  proof cases
    case 1
    then show ?thesis by simp
  next
    case 2
    from "7.IH"(1) [OF 2(1)] obtain p1 where "s = p1 @ r1" by blast
    moreover from "7.IH"(2) [OF 2(1) refl 2(2) 2(3)] obtain p2 where "r1 = p2 @ r" by blast
    ultimately have "s = (p1 @ p2) @ r" by simp
    then show ?thesis by blast
  qed
next
  case (8 a s)
  then show ?case by (auto simp: in_Group)
qed

lemma capture_eq: "s = p @ r \<Longrightarrow> take (length s - length r) s = p"
  by simp

lemma startsWith_prefix:
  assumes "startsWith t (a @ b)"
  shows "startsWith t a"
proof -
  from assms have "take (length a + length b) t = a @ b" by (simp add: startsWith_def)
  then have "take (length a) (take (length a + length b) t) = a" by simp
  then show ?thesis by (simp add: startsWith_def)
qed

lemma in_Opt_Lit_no_group: "(g, r) \<in> set (rx_match (Opt (Lit w)) s) \<Longrightarrow> g = []"
  by (auto simp: rx_match.simps(1,6) split: if_splits)

lemma unit_tail_no_groups:
  assumes "(g, r) \<in> set (rx_match X s)"
    and "X = Opt (Lit w1) \<or> X = Seq (Opt (Lit w1)) (Opt (Lit w2))"
  shows "g = []"
  using assms(2)
proof
  assume "X = Opt (Lit w1)"
  with assms(1) show ?thesis by (simp add: in_Opt_Lit_no_group)
next
  assume "X = Seq (Opt (Lit w1)) (Opt (Lit w2))"
  with assms(1) obtain g1 r1 g2 where "(g1, r1) \<in> set (rx_match (Opt (Lit w1)) s)"
    "(g2, r) \<in> set (rx_match (Opt (Lit w2)) r1)" "g = g1 @ g2" by (auto simp: in_Seq)
  then show ?thesis using in_Opt_Lit_no_group by fastforce
qed

lemma unit_alternative:
  assumes "(g, r) \<in> set (rx_match (Seq (Lit w) X) s)" and "lower_word w"
    and "X = Opt (Lit w1) \<or> X = Seq (Opt (Lit w1)) (Opt (Lit w2))"
  shows "g = [] \<and> (\<exists>u. s = u @ r \<and> startsWith (toLowerCase u) w)"
proof -
  from assms(1) obtain g1 r1 g2 where 1: "(g1, r1) \<in> set (rx_match (Lit w) s)"
    and 2: "(g2, r) \<in> set (rx_match X r1)" and g: "g = g1 @ g2" by (auto simp: in_Seq)
  from in_Lit [OF 1 assms(2)] obtain p1 where p1: "g1 = []" "s = p1 @ r1" "toLowerCase p1 = w" by blast
  from rx_match_suffix [OF 2] obtain p2 where p2: "r1 = p2 @ r" by blast
  from unit_tail_no_groups [OF 2 assms(3)] have "g2 = []" .
  moreover have "s = (p1 @ p2) @ r" using p1 p2 by simp
  moreover have "startsWith (toLowerCase (p1 @ p2)) w"
    using p1(3) by (simp add: toLowerCase_def startsWith_def)
  ultimately show ?thesis using g p1(1) by blast
qed

lemma unitsIn_capture:
  assumes "(g, r) \<in> set (rx_match (Group unitsIn) s)"
  shows "\<exists>u. g = [u] \<and> (startsWith (toLowerCase u) ''min'' \<or> startsWith (toLowerCase u) ''h''
            \<or> startsWith (toLowerCase u) ''d'')"
proof -
  from assms obtain g' where g': "(g', r) \<in> set (rx_match unitsIn s)"
    and g: "g = take (length s - length r) s # g'" by (auto simp: in_Group)
  have lw: "lower_word ''min''" "lower_word ''hr''" "lower_word ''hour''" "lower_word ''day''"
    by (simp_all add: lower_word_def)
  from g' consider
      "(g', r) \<in> set (rx_match (Seq (Lit ''min'') (Seq (Opt (Lit ''ute'')) (Opt (Lit ''s'')))) s)"
    | "(g', r) \<in> set (rx_match (Seq (Lit ''hr'') (Opt (Lit ''s''))) s)"
    | "(g', r) \<in> set (rx_match (Seq (Lit ''hour'') (Opt (Lit ''s''))) s)"
    | "(g', r) \<in> set (rx_match (Seq (Lit ''day'') (Opt (Lit ''s''))) s)"
    unfolding unitsIn_def rx_match.simps(5) set_append Un_iff by blast
  then have "g' = [] \<and> (\<exists>u. s = u @ r \<and> (startsWith (toLowerCase u) ''min''
        \<or> startsWith (toLowerCase u) ''h'' \<or> startsWith (toLowerCase u) ''d''))"
  proof cases
    case 1
    from unit_alternative [OF 1 lw(1)] show ?thesis by blast
  next
    case 2
    from unit_alternative [OF 2 lw(2)] startsWith_prefix [of _ "''h''" "''r''"]
    show ?thesis by fastforce
  next
    case 3
    from unit_alternative [OF 3 lw(3)] startsWith_prefix [of _ "''h''" "''our''"]
    show ?thesis by fastforce
  next
    case 4
    from unit_alternative [OF 4 lw(4)] startsWith_prefix [of _ "''d''" "''ay''"]
    show ?thesis by fastforce
  qed
  with g show ?thesis by (auto simp: capture_eq)
qed

lemma find_Some_holds: "find P xs = Some x \<Longrightarrow> x \<in> set xs \<and> P x"
  by (induction xs) (auto split: if_splits)

lemma rx_exec_Some:
  assumes "rx_exec R s = Some m"
  shows "\<exists>g. m = s # g \<and> (g, []) \<in> set (rx_match R s)"
proof -
  from assms obtain g rest where f: "find (\<lambda>(g, rest). rest = []) (rx_match R s) = Some (g, rest)"
    and m: "m = s # g" by (auto simp: rx_exec_def split: option.splits)
  from find_Some_holds [OF f] m show ?thesis by auto
qed

lemma unitsEvery_capture:
  assumes "(g, r) \<in> set (rx_match (Group unitsEvery) s)"
  shows "\<exists>u. g = [u] \<and> (startsWith (toLowerCase u) ''min'' \<or> startsWith (toLowerCase u) ''h'')"
proof -
  from assms obtain g' where g': "(g', r) \<in> set (rx_match unitsEvery s)"
    and g: "g = take (length s - length r) s # g'" by (auto simp: in_Group)
  have lw: "lower_word ''min''" "lower_word ''hr''" "lower_word ''hour''"
    by (simp_all add: lower_word_def)
  from g' consider
      "(g', r) \<in> set (rx_match (Seq (Lit ''min'') (Seq (Opt (Lit ''ute'')) (Opt (Lit ''s'')))) s)"
    | "(g', r) \<in> set (rx_match (Seq (Lit ''hr'') (Opt (Lit ''s''))) s)"
    | "(g', r) \<in> set (rx_match (Seq (Lit ''hour'') (Opt (Lit ''s''))) s)"
    unfolding unitsEvery_def rx_match.simps(5) set_append Un_iff by blast
  then have "g' = [] \<and> (\<exists>u. s = u @ r \<and> (startsWith (toLowerCase u) ''min''
        \<or> startsWith (toLowerCase u) ''h''))"
  proof cases
    case 1
    from unit_alternative [OF 1 lw(1)] show ?thesis by blast
  next
    case 2
    from unit_alternative [OF 2 lw(2)] startsWith_prefix [of _ "''h''" "''r''"]
    show ?thesis by fastforce
  next
    case 3
    from unit_alternative [OF 3 lw(3)] startsWith_prefix [of _ "''h''" "''our''"]
    show ?thesis by fastforce
  qed
  with g show ?thesis by (auto simp: capture_eq)
qed

lemma in_Lit_no_group: "(g, r) \<in> set (rx_match (Lit w) s) \<Longrightarrow> g = []"
  by (auto simp: rx_match.simps(1) split: if_splits)

lemma digits_capture:
  assumes "(g, r) \<in> set (rx_match (Group (Plus Digit)) s)"
  shows "\<exists>ds. g = [ds] \<and> ds \<noteq> [] \<and> list_all js_digit ds"
proof -
  from assms obtain g' where g': "(g', r) \<in> set (rx_match (Plus Digit) s)"
    and g: "g = take (length s - length r) s # g'" by (auto simp: in_Group)
  from in_Plus_Digit [OF g'] obtain p where "g' = []" "s = p @ r" "p \<noteq> []" "list_all js_digit p"
    by blast
  with g show ?thesis by (auto simp: capture_eq)
qed

lemma count_unit_groups:
  assumes "(g, r) \<in> set (rx_match (Seq (Lit w) (Seq (Plus Space) (Seq (Group (Plus Digit)) (Seq (Star Space) U)))) s)"
  shows "\<exists>ds gu r1. g = ds # gu \<and> ds \<noteq> [] \<and> list_all js_digit ds \<and> (gu, r) \<in> set (rx_match U r1)"
proof -
  from assms obtain g1 r1 g2 r2 g3 r3 g4 r4 g5 where
      1: "(g1, r1) \<in> set (rx_match (Lit w) s)"
    and 2: "(g2, r2) \<in> set (rx_match (Plus Space) r1)"
    and 3: "(g3, r3) \<in> set (rx_match (Group (Plus Digit)) r2)"
    and 4: "(g4, r4) \<in> set (rx_match (Star Space) r3)"
    and 5: "(g5, r) \<in> set (rx_match U r4)"
    and g: "g = g1 @ g2 @ g3 @ g4 @ g5"
    unfolding in_Seq by blast
  from in_Lit_no_group [OF 1] in_Plus_Space [OF 2] in_Star_Space [OF 4]
  have "g1 = []" "g2 = []" "g4 = []" by auto
  moreover from digits_capture [OF 3] obtain ds where "g3 = [ds]" "ds \<noteq> []" "list_all js_digit ds"
    by blast
  ultimately show ?thesis using g 5 by auto
qed

lemma inRx_groups:
  assumes "rx_exec inRx s = Some m"
  shows "\<exists>ds u. m = [s, ds, u] \<and> ds \<noteq> [] \<and> list_all js_digit ds
           \<and> (startsWith (toLowerCase u) ''min'' \<or> startsWith (toLowerCase u) ''h''
               \<or> startsWith (toLowerCase u) ''d'')"
proof -
  from rx_exec_Some [OF assms] obtain g where m: "m = s # g" and g: "(g, []) \<in> set (rx_match inRx s)"
    by blast
  from count_unit_groups [OF g [unfolded inRx_def]] obtain ds gu r1 where
    "g = ds # gu" "ds \<noteq> []" "list_all js_digit ds" "(gu, []) \<in> set (rx_match (Group unitsIn) r1)"
    by blast
  with unitsIn_capture [of gu "[]" r1] m show ?thesis by auto
qed

lemma everyRx_groups:
  assumes "rx_exec everyRx s = Some m"
  shows "\<exists>ds u. m = [s, ds, u] \<and> ds \<noteq> [] \<and> list_all js_digit ds
           \<and> (startsWith (toLowerCase u) ''min'' \<or> startsWith (toLowerCase u) ''h'')"
proof -
  from rx_exec_Some [OF assms] obtain g where m: "m = s # g" and g: "(g, []) \<in> set (rx_match everyRx s)"
    by blast
  from count_unit_groups [OF g [unfolded everyRx_def]] obtain ds gu r1 where
    "g = ds # gu" "ds \<noteq> []" "list_all js_digit ds" "(gu, []) \<in> set (rx_match (Group unitsEvery) r1)"
    by blast
  with unitsEvery_capture [of gu "[]" r1] m show ?thesis by auto
qed

lemma hhmm_groups:
  assumes "(g, r) \<in> set (rx_match hhmm s)"
  shows "\<exists>hh mm. g = [hh, mm] \<and> list_all js_digit hh \<and> (length hh = 1 \<or> length hh = 2)
           \<and> list_all js_digit mm \<and> length mm = 2"
proof -
  from assms obtain g1 r1 g2 r2 g3 where
      1: "(g1, r1) \<in> set (rx_match (Group (Seq Digit (Opt Digit))) s)"
    and 2: "(g2, r2) \<in> set (rx_match (Lit '':'') r1)"
    and 3: "(g3, r) \<in> set (rx_match (Group (Seq Digit Digit)) r2)"
    and g: "g = g1 @ g2 @ g3"
    unfolding hhmm_def in_Seq by blast
  from 1 have "\<exists>hh. g1 = [hh] \<and> list_all js_digit hh \<and> (length hh = 1 \<or> length hh = 2)"
    by (auto simp: in_Group in_Seq rx_match.simps(3,6) split: list.splits if_splits)
  moreover from 3 have "\<exists>mm. g3 = [mm] \<and> list_all js_digit mm \<and> length mm = 2"
    by (auto simp: in_Group in_Seq rx_match.simps(3) split: list.splits if_splits)
  moreover from in_Lit_no_group [OF 2] have "g2 = []" .
  ultimately show ?thesis using g by auto
qed

lemma in_Seq_no_group_left:
  assumes "(g, r) \<in> set (rx_match (Seq a b) s)"
    and "\<forall>g1 r1. (g1, r1) \<in> set (rx_match a s) \<longrightarrow> g1 = []"
  shows "\<exists>r1. (g, r) \<in> set (rx_match b r1)"
proof -
  from assms(1) obtain g1 r1 g2 where 1: "(g1, r1) \<in> set (rx_match a s)"
    and 2: "(g2, r) \<in> set (rx_match b r1)" and g: "g = g1 @ g2"
    unfolding in_Seq by blast
  from assms(2) 1 have "g1 = []" by blast
  with g 2 show ?thesis by auto
qed

lemma Lit_no_group: "\<forall>g r. (g, r) \<in> set (rx_match (Lit w) s) \<longrightarrow> g = []"
  using in_Lit_no_group by blast

lemma Plus_Space_no_group: "\<forall>g r. (g, r) \<in> set (rx_match (Plus Space) s) \<longrightarrow> g = []"
  using in_Plus_Space by blast

lemma daily_prefix_no_group:
  assumes "(g, r) \<in> set (rx_match (Alt (Seq (Lit ''every'') (Seq (Plus Space) (Lit ''day''))) (Lit ''daily'')) s)"
  shows "g = []"
proof -
  from assms consider "(g, r) \<in> set (rx_match (Seq (Lit ''every'') (Seq (Plus Space) (Lit ''day''))) s)"
    | "(g, r) \<in> set (rx_match (Lit ''daily'') s)"
    by (auto simp: rx_match.simps(5))
  then show ?thesis
  proof cases
    case 1
    from in_Seq_no_group_left [OF 1 Lit_no_group] obtain r1 where
      "(g, r) \<in> set (rx_match (Seq (Plus Space) (Lit ''day'')) r1)" by blast
    from in_Seq_no_group_left [OF this Plus_Space_no_group] obtain r2 where
      "(g, r) \<in> set (rx_match (Lit ''day'') r2)" by blast
    then show ?thesis by (rule in_Lit_no_group)
  next
    case 2
    then show ?thesis by (rule in_Lit_no_group)
  qed
qed

lemma at_hhmm_tail:
  assumes "(g, r) \<in> set (rx_match (Seq (Lit w) (Seq (Plus Space) hhmm)) s)"
  shows "\<exists>r1. (g, r) \<in> set (rx_match hhmm r1)"
proof -
  from in_Seq_no_group_left [OF assms Lit_no_group] obtain r1 where
    "(g, r) \<in> set (rx_match (Seq (Plus Space) hhmm) r1)" by blast
  from in_Seq_no_group_left [OF this Plus_Space_no_group] show ?thesis .
qed

lemma timeRx_groups:
  assumes "rx_exec R s = Some m"
    and "R = atRx \<or> R = tomorrowRx \<or> R = dailyRx"
  shows "\<exists>hh mm. m = [s, hh, mm] \<and> list_all js_digit hh \<and> (length hh = 1 \<or> length hh = 2)
           \<and> list_all js_digit mm \<and> length mm = 2"
proof -
  from rx_exec_Some [OF assms(1)] obtain g where m: "m = s # g" and g: "(g, []) \<in> set (rx_match R s)"
    by blast
  have "\<exists>r1. (g, []) \<in> set (rx_match hhmm r1)"
    using assms(2)
  proof (elim disjE)
    assume "R = atRx"
    with g show ?thesis unfolding atRx_def by (simp add: at_hhmm_tail)
  next
    assume "R = tomorrowRx"
    with g have "(g, []) \<in> set (rx_match (Seq (Lit ''tomorrow'') (Seq (Plus Space) (Seq (Lit ''at'') (Seq (Plus Space) hhmm)))) s)"
      by (simp add: tomorrowRx_def)
    from in_Seq_no_group_left [OF this Lit_no_group] obtain r1 where
      "(g, []) \<in> set (rx_match (Seq (Plus Space) (Seq (Lit ''at'') (Seq (Plus Space) hhmm))) r1)" by blast
    from in_Seq_no_group_left [OF this Plus_Space_no_group] obtain r2 where
      "(g, []) \<in> set (rx_match (Seq (Lit ''at'') (Seq (Plus Space) hhmm)) r2)" by blast
    then show ?thesis by (rule at_hhmm_tail)
  next
    assume "R = dailyRx"
    with g have "(g, []) \<in> set (rx_match (Seq (Alt (Seq (Lit ''every'') (Seq (Plus Space) (Lit ''day''))) (Lit ''daily''))
                 (Seq (Plus Space) (Seq (Lit ''at'') (Seq (Plus Space) hhmm)))) s)"
      by (simp add: dailyRx_def)
    moreover have "\<forall>g1 r1. (g1, r1) \<in> set (rx_match (Alt (Seq (Lit ''every'') (Seq (Plus Space) (Lit ''day''))) (Lit ''daily'')) s) \<longrightarrow> g1 = []"
      using daily_prefix_no_group by blast
    ultimately obtain r1 where
      "(g, []) \<in> set (rx_match (Seq (Plus Space) (Seq (Lit ''at'') (Seq (Plus Space) hhmm))) r1)"
      using in_Seq_no_group_left by blast
    from in_Seq_no_group_left [OF this Plus_Space_no_group] obtain r2 where
      "(g, []) \<in> set (rx_match (Seq (Lit ''at'') (Seq (Plus Space) hhmm)) r2)" by blast
    then show ?thesis by (rule at_hhmm_tail)
  qed
  then obtain r1 where "(g, []) \<in> set (rx_match hhmm r1)" by blast
  with hhmm_groups [of g "[]" r1] m show ?thesis by auto
qed

lemma inBranch_returns:
  assumes "rx_exec inRx s \<noteq> None"
  shows "inBranch now s \<noteq> None"
proof -
  from assms obtain m where m: "rx_exec inRx s = Some m" by blast
  from inRx_groups [OF m] show ?thesis by (auto simp: inBranch_def m Let_def)
qed

lemma everyBranch_returns:
  assumes "rx_exec everyRx s \<noteq> None"
  shows "everyBranch now s \<noteq> None"
proof -
  from assms obtain m where m: "rx_exec everyRx s = Some m" by blast
  from everyRx_groups [OF m] show ?thesis by (auto simp: everyBranch_def m Let_def)
qed

lemma orElse_None: "orElse x y = None \<longleftrightarrow> x = None \<and> y = None"
  by (cases x) (simp_all add: orElse_def)

lemma calculateNextRun_None_iff:
  "calculateNextRun tz now scheduleStr = None \<longleftrightarrow> matches_no_form scheduleStr"
proof -
  let ?s = "trim (toLowerCase scheduleStr)"
  have "inBranch now ?s = None \<longleftrightarrow> rx_exec inRx ?s = None"
  proof (cases "rx_exec inRx ?s")
    case None
    then show ?thesis by (simp add: inBranch_def)
  next
    case (Some m)
    then show ?thesis using inBranch_returns [of ?s now] by simp
  qed
  moreover have "everyBranch now ?s = None \<longleftrightarrow> rx_exec everyRx ?s = None"
  proof (cases "rx_exec everyRx ?s")
    case None
    then show ?thesis by (simp add: everyBranch_def)
  next
    case (Some m)
    then show ?thesis using everyBranch_returns [of ?s now] by simp
  qed
  moreover have "atBranch tz now ?s = None \<longleftrightarrow> rx_exec atRx ?s = None"
    by (simp add: atBranch_def Let_def split: option.splits)
  moreover have "tomorrowBranch tz now ?s = None \<longleftrightarrow> rx_exec tomorrowRx ?s = None"
    by (simp add: tomorrowBranch_def Let_def split: option.splits)
  moreover have "dailyBranch tz now ?s = None \<longleftrightarrow> rx_exec dailyRx ?s = None"
    by (simp add: dailyBranch_def Let_def split: option.splits)
  ultimately show ?thesis
    by (simp only: calculateNextRun_def matches_no_form_def Let_def orElse_None)
qed

subsection \<open>Descriptors outside the grammar\<close>

lemma unmatched_calculateNextRun:
  assumes "matches_no_form scheduleStr"
  shows "calculateNextRun tz now scheduleStr = None"
  using assms
  by (simp add: matches_no_form_def calculateNextRun_def Let_def orElse_def inBranch_def atBranch_def
      tomorrowBranch_def dailyBranch_def everyBranch_def)

text \<open>
  Claim C8, as the code has it: when the descriptor matches none of the five patterns,
  \<open>calculateNextRun\<close> yields \<open>null\<close>, and \<open>handleCreateTask\<close> sends no event and
  leaves the form as it is. It raises the alert \<open>Invalid schedule format\<close> when the
  title and the descriptor are not blank; when one of them is blank it returns before
  the descriptor is looked at and raises nothing.
\<close>

theorem unparseable_schedule_rejected:
  assumes "matches_no_form (schedule f)"
  shows "calculateNextRun tz now (schedule f) = None
       \<and> sent (handleCreateTask tz now uuid f) = []
       \<and> form (handleCreateTask tz now uuid f) = f
       \<and> \<not> formReset (handleCreateTask tz now uuid f)
       \<and> (trim (title f) \<noteq> [] \<and> trim (schedule f) \<noteq> [] \<longrightarrow>
            alerts (handleCreateTask tz now uuid f) = [''Invalid schedule format''])
       \<and> (trim (title f) = [] \<or> trim (schedule f) = [] \<longrightarrow>
            alerts (handleCreateTask tz now uuid f) = [])"
  using unmatched_calculateNextRun [OF assms, of tz now]
  by (simp add: handleCreateTask_def)

lemma whenever_unmatched: "matches_no_form ''whenever''"
  by (simp add: matches_no_form_def Let_def toLowerCase_def toLowerChar_def trim_def trimStart_def trimEnd_def
      js_space_def rx_exec_Nil inRx_def atRx_def tomorrowRx_def dailyRx_def everyRx_def
      match_Seq_Lit_fail ci_eq_def ascii_fold_def rx_match.simps(4,5) match_Lit_Cons_Cons)

lemma blank_unmatched: "matches_no_form ''   ''"
  by (simp add: matches_no_form_def Let_def toLowerCase_def toLowerChar_def trim_def trimStart_def trimEnd_def
      js_space_def rx_exec_Nil inRx_def atRx_def tomorrowRx_def dailyRx_def everyRx_def
      rx_match.simps(4,5) match_Lit_Cons_Nil)

theorem unparseable_schedule_rejected_witness:
  "matches_no_form ''whenever''
   \<and> calculateNextRun (fixedOffset 0) 1700000000000 ''whenever'' = None
   \<and> sent (handleCreateTask (fixedOffset 0) 1700000000000 ''id-1''
        \<lparr>title = ''Backup'', prompt = '''', schedule = ''whenever'', notifyBefore = None\<rparr>) = []
   \<and> alerts (handleCreateTask (fixedOffset 0) 1700000000000 ''id-1''
        \<lparr>title = ''Backup'', prompt = '''', schedule = ''whenever'', notifyBefore = None\<rparr>)
       = [''Invalid schedule format'']"
  using unparseable_schedule_rejected [of "\<lparr>title = ''Backup'', prompt = '''', schedule = ''whenever'', notifyBefore = None\<rparr>" "fixedOffset 0" 1700000000000 "''id-1''"]
    whenever_unmatched
  by (simp add: trim_def trimStart_def trimEnd_def js_space_def)

text \<open>
  The claim as it is worded promises a validation error for every descriptor that matches
  no form. A descriptor of three spaces matches none, and no alert is raised for it.
\<close>

theorem blank_schedule_no_alert_counterexample:
  "matches_no_form ''   ''
   \<and> alerts (handleCreateTask (fixedOffset 0) 1700000000000 ''id-1''
        \<lparr>title = ''Backup'', prompt = '''', schedule = ''   '', notifyBefore = None\<rparr>) = []"
  using blank_unmatched
  by (simp add: handleCreateTask_def trim_def trimStart_def trimEnd_def js_space_def)

lemma examples_unmatched:
  "matches_no_form ''every 30 seconds''" "matches_no_form ''in five minutes''"
  "matches_no_form ''at 7''" "matches_no_form ''at 12:5''" "matches_no_form ''daily at noon''"
  by code_simp+

section \<open>Properties of the isolated code execution\<close>

subsection \<open>Timeout\<close>

lemma evalCode_no_result:
  assumes run: "evalCode interruptHandler stp n s = Some res"
    and never: "\<forall>k. \<not> interruptHandler k"
    and loop: "\<forall>s. \<exists>s'. stp s = Inl s'"
  shows False
proof -
  have "(\<forall>k. \<not> interruptHandler k) \<longrightarrow> (\<forall>s. \<exists>s'. stp s = Inl s') \<longrightarrow> False"
  proof (rule evalCode.raw_induct
      [where P = "\<lambda>h stp n s res. (\<forall>k. \<not> h k) \<longrightarrow> (\<forall>s. \<exists>s'. stp s = Inl s') \<longrightarrow> False", OF _ run])
    fix ev :: "(nat \<Rightarrow> bool) \<Rightarrow> ('a \<Rightarrow> 'a + eval_result) \<Rightarrow> nat \<Rightarrow> 'a \<Rightarrow> eval_result option"
    fix h stp n s res
    assume IH: "\<And>h stp n s y. ev h stp n s = Some y \<Longrightarrow>
                  (\<forall>k. \<not> h k) \<longrightarrow> (\<forall>s. \<exists>s'. stp s = Inl s') \<longrightarrow> False"
      and body: "(if h n then Some (EvalError ''InternalError: interrupted'')
                  else case stp s of Inl s' \<Rightarrow> ev h stp (Suc n) s' | Inr res \<Rightarrow> Some res) = Some res"
    show "(\<forall>k. \<not> h k) \<longrightarrow> (\<forall>s. \<exists>s'. stp s = Inl s') \<longrightarrow> False"
    proof (intro impI)
      assume nv: "\<forall>k. \<not> h k" and lp: "\<forall>s. \<exists>s'. stp s = Inl s'"
      from lp obtain s' where "stp s = Inl s'" by blast
      with body nv have "ev h stp (Suc n) s' = Some res" by simp
      from IH [OF this] nv lp show False by blast
    qed
  qed
  with never loop show False by blast
qed

lemma evalCode_loops:
  assumes "\<And>s. \<exists>s'. stp s = Inl s'"
  shows "evalCode (\<lambda>_. False) stp n s = None"
proof (cases "evalCode (\<lambda>_. False) stp n s")
  case None
  then show ?thesis .
next
  case (Some res)
  then show ?thesis using evalCode_no_result [OF Some] assms by blast
qed

text \<open>
  A handler that answers true once the elapsed time reaches a limit ends every run, so
  the engine does offer the means for a timeout; the handler installed by
  \<open>executeInQuickJS\<close> never answers true.
\<close>

lemma evalCode_bounded_handler:
  "\<exists>res. evalCode (\<lambda>k. limit \<le> k) stp n s = Some res"
proof (induction "limit - n" arbitrary: n s)
  case 0
  then have "limit \<le> n" by simp
  then show ?case by (subst evalCode.simps) simp
next
  case (Suc d)
  then have n: "\<not> limit \<le> n" and d: "d = limit - Suc n" by simp_all
  show ?case
  proof (cases "stp s")
    case (Inl s')
    from Suc.hyps(1) [OF d, of s'] obtain res where "evalCode (\<lambda>k. limit \<le> k) stp (Suc n) s' = Some res"
      by blast
    with n Inl show ?thesis by (subst evalCode.simps) simp
  next
    case (Inr res)
    with n show ?thesis by (subst evalCode.simps) simp
  qed
qed

lemma executeInQuickJS_ignores_timeout:
  "executeInQuickJS script cwd isPathSafe t1 = executeInQuickJS script cwd isPathSafe t2"
  by (simp add: executeInQuickJS_def)

lemma executeJSTool_loops:
  assumes "\<And>s. \<exists>s'. step (code args) s = Inl s'"
  shows "executeJSTool args cwd isPathSafe = None"
  by (simp add: executeJSTool_def executeInQuickJS_def evalCode_loops [OF assms] Let_def)

lemma executeJSTool_returns:
  "executeJSTool \<lparr>code = returnsAtOnce ''42'', explanation = ''answer'', timeout = None\<rparr>
     cwd isPathSafe = Some (ToolSuccess ''42'')"
  by (simp add: executeJSTool_def executeInQuickJS_def returnsAtOnce_def evalCode.simps)

text \<open>
  Claim C1 says that a script that does not terminate, run with a configured timeout,
  ends with a timeout error within that bound. The code does otherwise: the interrupt
  handler never stops the run and the timeout is not consulted, so \<open>executeJSTool\<close>
  called with the script \<open>while (true) { }\<close> and a timeout of 2000 ms does not
  return.
\<close>

theorem infinite_loop_never_returns:
  "executeJSTool \<lparr>code = infiniteLoop, explanation = ''Test infinite loop protection'', timeout = Some 2000\<rparr>
     ''/home/u/ws'' (workspaceOnly ''/home/u/ws'') = None"
  by (rule executeJSTool_loops) (simp add: infiniteLoop_def)

subsection \<open>File functions\<close>

lemma guarded_functions_deny:
  assumes "\<not> isPathSafe (fullPathOf processCwd cwd p)"
  shows "readFileSyncFn processCwd host cwd isPathSafe p
           = (Inl (''Access denied: '' @ p @ '' is outside workspace''), [])"
    and "writeFileSyncFn processCwd host cwd isPathSafe p dat
           = (Inl (''Access denied: '' @ p @ '' is outside workspace''), [])"
    and "readdirSyncFn processCwd host cwd isPathSafe p
           = (Inl (''Access denied: '' @ p @ '' is outside workspace''), [])"
  using assms by (simp_all add: readFileSyncFn_def writeFileSyncFn_def readdirSyncFn_def)

lemma existsSyncFn_always_asks_host:
  "snd (existsSyncFn processCwd host cwd isPathSafe p) = [HostExists (fullPathOf processCwd cwd p)]"
  by (simp add: existsSyncFn_def Let_def)

lemma passwd_path: "fullPathOf ''/'' ''/home/u/ws'' ''../../../etc/passwd'' = ''/etc/passwd''"
  by (simp add: fullPathOf_def startsWith_def resolve_def normalizeString_def)

lemma passwd_outside: "\<not> workspaceOnly ''/home/u/ws'' ''/etc/passwd''"
  by (simp add: workspaceOnly_def startsWith_def)

text \<open>
  Claim C2 says that each of the four file functions checks its resolved path with
  \<open>isPathSafe\<close> and fails, without touching the host file system, when the path is
  outside the workspace. \<open>readFileSync\<close>, \<open>writeFileSync\<close> and \<open>readdirSync\<close> do so
  (lemma \<open>guarded_functions_deny\<close>); \<open>existsSync\<close> does not: for the workspace
  \<open>/home/u/ws\<close> and the argument \<open>../../../etc/passwd\<close> it asks the host about
  \<open>/etc/passwd\<close> and reports that the file exists, where \<open>readFileSync\<close> denies
  access.
\<close>

theorem existsSync_not_revalidated:
  "fullPathOf ''/'' ''/home/u/ws'' ''../../../etc/passwd'' = ''/etc/passwd''
   \<and> \<not> workspaceOnly ''/home/u/ws'' ''/etc/passwd''
   \<and> existsSyncFn ''/'' hostWithPasswd ''/home/u/ws'' (workspaceOnly ''/home/u/ws'') ''../../../etc/passwd''
       = (Inr VmTrue, [HostExists ''/etc/passwd''])
   \<and> readFileSyncFn ''/'' hostWithPasswd ''/home/u/ws'' (workspaceOnly ''/home/u/ws'') ''../../../etc/passwd''
       = (Inl ''Access denied: ../../../etc/passwd is outside workspace'', [])"
  by (simp add: passwd_path passwd_outside existsSyncFn_def readFileSyncFn_def hostWithPasswd_def)

subsection \<open>Handlers of the main process\<close>

lemma list_directory_granted:
  assumes "list_directory processCwd allSessions dirPath = ListReaddir d"
  shows "d = dirPath \<and> (\<exists>c. Some c \<in> set allSessions \<and> c \<noteq> []
           \<and> startsWith (toLowerCase (resolve processCwd [dirPath])) (toLowerCase (resolve processCwd [c])))"
proof -
  let ?P = "\<lambda>s. case s of None \<Rightarrow> False
                  | Some c \<Rightarrow> if c = [] then False
                              else startsWith (nfc (toLowerCase (resolve processCwd [dirPath])))
                                     (nfc (toLowerCase (resolve processCwd [c])))"
  from assms obtain c where f: "find ?P allSessions = Some (Some c)" and d: "d = dirPath"
    by (auto simp: list_directory_def Let_def split: option.splits if_splits)
  from find_Some_holds [OF f] have "Some c \<in> set allSessions" and "?P (Some c)"
    by blast+
  then show ?thesis using d by (auto simp: nfc_def split: if_splits)
qed

lemma get_image_preview_granted:
  assumes "get_image_preview processCwd cwd path = Inr fullPath"
  shows "\<exists>c p. cwd = Some c \<and> path = Some p
           \<and> fullPath = normalize (resolve processCwd [normalize (resolve processCwd [c]), p])
           \<and> (let root = normalize (resolve processCwd [c])
              in fullPath = root \<or> startsWith fullPath (if endsWith root ''/'' then root else root @ ''/''))"
  using assms
  by (auto simp: get_image_preview_def Let_def sep_def split: option.splits if_splits)

text \<open>
  Claim C3 says that both handlers accept a path only when it is the workspace root or
  lies below it at a separator boundary. \<open>get-image-preview\<close> does so (lemma
  \<open>get_image_preview_granted\<close>); \<open>list-directory\<close> compares plain string prefixes
  (lemma \<open>list_directory_granted\<close>), and so grants the sibling directory
  \<open>/home/u/project-evil\<close> to a session whose workspace is \<open>/home/u/project\<close>, a
  path that \<open>get-image-preview\<close> rejects.
\<close>

theorem list_directory_accepts_sibling:
  "list_directory ''/'' [Some ''/home/u/project''] ''/home/u/project-evil''
     = ListReaddir ''/home/u/project-evil''
   \<and> get_image_preview ''/'' (Some ''/home/u/project'') (Some ''../project-evil/secret.png'')
     = Inl ''Access denied: Path is outside the workspace folder''"
  by code_simp

lemma list_directory_rejects_traversal:
  "list_directory ''/'' [Some ''/home/u/project''] ''/home/u/project/../../x'' = ListDenied"
  "list_directory ''/'' [Some ''/home/u/project''] ''/ETC/passwd'' = ListDenied"
  "list_directory ''/'' [Some ''/home/u/project''] ''/home/u/project/src'' = ListReaddir ''/home/u/project/src''"
  by code_simp+

lemma get_image_preview_examples:
  "get_image_preview ''/'' (Some ''/home/u/project'') (Some ''../../x'')
     = Inl ''Access denied: Path is outside the workspace folder''"
  "get_image_preview ''/'' (Some ''/home/u/project'') (Some ''/HOME/U/PROJECT/a.png'')
     = Inl ''Access denied: Path is outside the workspace folder''"
  "get_image_preview ''/'' (Some ''/home/u/project'') (Some ''img/a.png'')
     = Inr ''/home/u/project/img/a.png''"
  by code_simp+

end
